theory Spec2Isabelle
  imports Main "HOL-Library.Word" "HOL-Library.Multiset" "HOL-Library.AList" "HOL-Library.Char_ord" "HOL-Library.List_Lexorder"
begin

section \<open>Bytes and decimal conversions\<close>

text \<open>
  Go's \<open>[]byte\<close> and \<open>string\<close> are byte sequences; both are modelled as \<open>string\<close>
  (a list of 8-bit characters). A nil slice, where the code tells it from an empty one,
  is \<open>None\<close> of an option.
\<close>

abbreviation CR :: char where "CR \<equiv> CHR 0x0D"
abbreviation LF :: char where "LF \<equiv> CHR 0x0A"

definition CRLF :: string where
  "CRLF = [CR, LF]"

definition digit_char :: "nat \<Rightarrow> char" where
  "digit_char d = char_of (48 + d)"

definition is_digit :: "char \<Rightarrow> bool" where
  "is_digit c = (48 \<le> (of_char c :: nat) \<and> (of_char c :: nat) \<le> 57)"

definition digit_val :: "char \<Rightarrow> nat" where
  "digit_val c = of_char c - 48"

text \<open>The decimal digits of an unsigned number, most significant first (\<open>"0"\<close> for 0).\<close>

fun digits10 :: "nat \<Rightarrow> string" where
  "digits10 n = (if n < 10 then [digit_char n] else digits10 (n div 10) @ [digit_char (n mod 10)])"

declare digits10.simps [simp del]

text \<open>
  \<open>strconv.Itoa\<close> / \<open>strconv.FormatInt(i, 10)\<close>: a minus sign and the digits of the
  magnitude for a negative number, the digits otherwise.
\<close>

definition Itoa :: "int \<Rightarrow> string" where
  "Itoa i = (if i < 0 then CHR ''-'' # digits10 (nat (- i)) else digits10 (nat i))"

definition FormatInt :: "64 word \<Rightarrow> string" where
  "FormatInt w = Itoa (sint w)"

text \<open>
  \<open>strconv.ParseUint(s, 10, 64)\<close> on its digits: a syntax error (\<open>None\<close>) on the empty
  string and on any byte that is not a decimal digit. The accumulated value is kept
  unbounded here; the range check of the callers below rejects what does not fit.
\<close>

fun parse_digits :: "nat \<Rightarrow> string \<Rightarrow> nat option" where
  "parse_digits acc [] = Some acc"
| "parse_digits acc (c # cs) = (if is_digit c then parse_digits (acc * 10 + digit_val c) cs else None)"

definition ParseUint :: "string \<Rightarrow> nat option" where
  "ParseUint s = (if s = [] then None else parse_digits 0 s)"

text \<open>
  \<open>strconv.Atoi\<close> and \<open>strconv.ParseInt(s, 10, 64)\<close> on a 64-bit platform: an optional
  sign, then digits; an error when the string is empty, has a non-digit, or the value is
  outside \<open>[-2^63, 2^63)\<close>.
\<close>

definition Atoi :: "string \<Rightarrow> int option" where
  "Atoi s =
     (case s of
        [] \<Rightarrow> None
      | c # cs \<Rightarrow>
          (let neg = (c = CHR ''-'');
               s' = (if c = CHR ''+'' \<or> c = CHR ''-'' then cs else s)
           in case ParseUint s' of
                None \<Rightarrow> None
              | Some un \<Rightarrow>
                  if \<not> neg \<and> un \<ge> 2 ^ 63 then None
                  else if neg \<and> un > 2 ^ 63 then None
                  else Some (if neg then - int un else int un)))"

definition ParseInt :: "string \<Rightarrow> 64 word option" where
  "ParseInt s = map_option word_of_int (Atoi s)"

section \<open>RESP replies and their serialisation (resp/reply.go)\<close>

text \<open>
  The \<open>Reply\<close> interface and its implementations. \<open>BulkReply None\<close> is a bulk whose
  \<open>Arg\<close> is nil; \<open>MultiBulkReply None\<close> is a multi bulk whose \<open>Args\<close> is the nil
  slice, \<open>MultiBulkReply (Some [])\<close> one whose \<open>Args\<close> is empty but not nil; an element
  of \<open>Args\<close> may itself be nil. \<open>NilMultiBulk\<close> is the nil \<open>*MultiBulkReply\<close> that
  \<open>parseArray\<close> returns for a count of -1, and \<open>NoReply\<close> the nil interface value.
\<close>

datatype reply =
    StatusReply string
  | ErrorReply string
  | IntReply "64 word"
  | BulkReply "string option"
  | MultiBulkReply "string option list option"
  | NilMultiBulk
  | NoReply

definition MakeStatusReply :: "string \<Rightarrow> reply" where
  "MakeStatusReply status = StatusReply status"

definition MakeErrReply :: "string \<Rightarrow> reply" where
  "MakeErrReply status = ErrorReply status"

definition MakeIntReply :: "64 word \<Rightarrow> reply" where
  "MakeIntReply code = IntReply code"

definition MakeBulkReply :: "string option \<Rightarrow> reply" where
  "MakeBulkReply arg = BulkReply arg"

definition MakeMultiBulkReply :: "string option list option \<Rightarrow> reply" where
  "MakeMultiBulkReply args = MultiBulkReply args"

definition OkReply :: reply where
  "OkReply = MakeStatusReply ''OK''"

definition NullBulkReply :: reply where
  "NullBulkReply = MakeBulkReply None"

text \<open>One element of a multi bulk, as the loop of \<open>MultiBulkReply.ToBytes\<close> writes it.\<close>

definition bulk_bytes :: "string option \<Rightarrow> string" where
  "bulk_bytes arg =
     (case arg of
        None \<Rightarrow> ''$-1'' @ CRLF
      | Some a \<Rightarrow> ''$'' @ Itoa (int (length a)) @ CRLF @ a @ CRLF)"

text \<open>
  \<open>ToBytes\<close>. Calling it on the nil \<open>*MultiBulkReply\<close> or on the nil interface
  dereferences nil and panics: \<open>None\<close>.
\<close>

fun ToBytes :: "reply \<Rightarrow> string option" where
  "ToBytes (StatusReply s) = Some (''+'' @ s @ CRLF)"
| "ToBytes (ErrorReply s) = Some (''-'' @ s @ CRLF)"
| "ToBytes (IntReply c) = Some ('':'' @ FormatInt c @ CRLF)"
| "ToBytes (BulkReply arg) = Some (bulk_bytes arg)"
| "ToBytes (MultiBulkReply None) = Some (''*-1'' @ CRLF)"
| "ToBytes (MultiBulkReply (Some args)) =
     Some (''*'' @ Itoa (int (length args)) @ CRLF @ concat (map bulk_bytes args))"
| "ToBytes NilMultiBulk = None"
| "ToBytes NoReply = None"

section \<open>RESP parsing (resp/parser.go)\<close>

text \<open>
  The reader is the list of bytes not yet consumed; each function returns what is left.
  Errors are values; a run-time panic of the Go code (index out of range, negative
  \<open>make\<close>) is the error \<open>Panic\<close>.
\<close>

datatype parse_error =
    EOF
  | UnexpectedEOF
  | NoCRLF
  | EmptyLine
  | NumError
  | BadBulkFormat
  | ExpectedBulk
  | UnknownPrefix string
  | Panic

text \<open>
  \<open>readLine\<close>: \<open>ReadBytes('\n')\<close> returns the bytes up to and including the first
  line feed, or \<open>io.EOF\<close> when there is none; the line must end in CR LF, which is cut off.
\<close>

definition readLine :: "string \<Rightarrow> parse_error + (string \<times> string)" where
  "readLine inp =
     (if LF \<notin> set inp then Inl EOF
      else
        let line = takeWhile (\<lambda>c. c \<noteq> LF) inp @ [LF];
            rest = drop (length line) inp
        in if length line > 1 \<and> line ! (length line - 2) = CR
           then Inr (take (length line - 2) line, rest)
           else Inl NoCRLF)"

text \<open>\<open>io.ReadFull\<close> for a buffer of \<open>n\<close> bytes.\<close>

definition ReadFull :: "nat \<Rightarrow> string \<Rightarrow> parse_error + (string \<times> string)" where
  "ReadFull n inp =
     (if n \<le> length inp then Inr (take n inp, drop n inp)
      else if inp = [] then Inl EOF
      else Inl UnexpectedEOF)"

text \<open>
  \<open>parseBulk\<close>. The header starts with \<open>$\<close>. A length of -1 is the nil bulk. For a
  length below -1, or one whose \<open>n+2\<close> wraps around, \<open>make\<close> or the index \<open>body[n]\<close>
  panics.
\<close>

definition parseBulk :: "string \<Rightarrow> string \<Rightarrow> parse_error + (string option \<times> string)" where
  "parseBulk header inp =
     (case Atoi (tl header) of
        None \<Rightarrow> Inl NumError
      | Some n \<Rightarrow>
          if n = -1 then Inr (None, inp)
          else if n < -1 \<or> n + 2 \<ge> 2 ^ 63 then Inl Panic
          else
            (case ReadFull (nat (n + 2)) inp of
               Inl e \<Rightarrow> Inl e
             | Inr (body, rest) \<Rightarrow>
                 if body ! nat n \<noteq> CR \<or> body ! nat (n + 1) \<noteq> LF then Inl BadBulkFormat
                 else Inr (Some (take (nat n) body), rest)))"

text \<open>
  The loop of \<open>parseArray\<close> over the \<open>n\<close> elements: each is read as a line that must
  start with \<open>$\<close> (\<open>line[0]\<close> on an empty line panics) and is parsed as a bulk.
\<close>

fun parseElems :: "nat \<Rightarrow> string \<Rightarrow> parse_error + (string option list \<times> string)" where
  "parseElems 0 inp = Inr ([], inp)"
| "parseElems (Suc i) inp =
     (case readLine inp of
        Inl e \<Rightarrow> Inl e
      | Inr (line, rest) \<Rightarrow>
          (case line of
             [] \<Rightarrow> Inl Panic
           | c # _ \<Rightarrow>
               if c = CHR ''$'' then
                 (case parseBulk line rest of
                    Inl e \<Rightarrow> Inl e
                  | Inr (arg, rest') \<Rightarrow>
                      (case parseElems i rest' of
                         Inl e \<Rightarrow> Inl e
                       | Inr (args, rest'') \<Rightarrow> Inr (arg # args, rest'')))
               else Inl ExpectedBulk))"

definition parseArray :: "string \<Rightarrow> string \<Rightarrow> parse_error + (reply \<times> string)" where
  "parseArray header inp =
     (case Atoi (tl header) of
        None \<Rightarrow> Inl NumError
      | Some n \<Rightarrow>
          if n = -1 then Inr (NilMultiBulk, inp)
          else if n < 0 then Inl Panic
          else
            (case parseElems (nat n) inp of
               Inl e \<Rightarrow> Inl e
             | Inr (lines, rest) \<Rightarrow> Inr (MakeMultiBulkReply (Some lines), rest)))"

definition parseLine :: "string \<Rightarrow> string \<Rightarrow> parse_error + (reply \<times> string)" where
  "parseLine line inp =
     (case line of
        [] \<Rightarrow> Inl EmptyLine
      | c # cs \<Rightarrow>
          if c = CHR ''*'' then parseArray line inp
          else if c = CHR ''$'' then
            (case parseBulk line inp of
               Inl e \<Rightarrow> Inl e
             | Inr (arg, rest) \<Rightarrow> Inr (MakeBulkReply arg, rest))
          else if c = CHR ''+'' then Inr (MakeStatusReply cs, inp)
          else if c = CHR ''-'' then Inr (MakeErrReply cs, inp)
          else if c = CHR '':'' then
            (case ParseInt cs of
               None \<Rightarrow> Inl NumError
             | Some val \<Rightarrow> Inr (MakeIntReply val, inp))
          else Inl (UnknownPrefix line))"

text \<open>\<open>StreamParser.ReadReply\<close>: one line, then the reply it announces.\<close>

definition ReadReply :: "string \<Rightarrow> parse_error + (reply \<times> string)" where
  "ReadReply inp =
     (case readLine inp of
        Inl e \<Rightarrow> Inl e
      | Inr (line, rest) \<Rightarrow> parseLine line rest)"

text \<open>
  The replies on which a round trip is claimed: a status or an error without a line feed
  in its text, an integer, a bulk, and an array that is not the nil array; every length
  fits the \<open>int\<close> that \<open>make([]byte, n+2)\<close> is given.
\<close>

definition wf_bulk :: "string option \<Rightarrow> bool" where
  "wf_bulk arg = (case arg of None \<Rightarrow> True | Some a \<Rightarrow> int (length a) + 2 < 2 ^ 63)"

fun wf_reply :: "reply \<Rightarrow> bool" where
  "wf_reply (StatusReply s) = (LF \<notin> set s)"
| "wf_reply (ErrorReply s) = (LF \<notin> set s)"
| "wf_reply (IntReply c) = True"
| "wf_reply (BulkReply arg) = wf_bulk arg"
| "wf_reply (MultiBulkReply None) = False"
| "wf_reply (MultiBulkReply (Some args)) = (int (length args) < 2 ^ 63 \<and> list_all wf_bulk args)"
| "wf_reply NilMultiBulk = False"
| "wf_reply NoReply = False"

section \<open>Values (db/types.go)\<close>

text \<open>
  A Go byte slice that may be nil is a \<open>string option\<close>; \<open>string(b)\<close> and \<open>len(b)\<close>
  of the nil slice are the empty string and 0. \<open>append([]byte(nil), b...)\<close>, the copy
  idiom of the snapshot code, yields nil for every empty \<open>b\<close>.
\<close>

type_synonym bytes = "string option"

definition str :: "bytes \<Rightarrow> string" where
  "str b = (case b of None \<Rightarrow> [] | Some s \<Rightarrow> s)"

definition blen :: "bytes \<Rightarrow> nat" where
  "blen b = length (str b)"

definition clone :: "bytes \<Rightarrow> bytes" where
  "clone b = (if blen b = 0 then None else b)"

text \<open>
  The four value variants. A list is the sequence of its elements front first; a hash
  (a Go map) is an association list with one pair per field, a set a list without
  repetition. Go iterates a map in an unspecified order; where the code iterates, the
  model takes the order of the list.
\<close>

datatype DataEntity =
    StringData bytes
  | ListData "bytes list"
  | HashData "(string \<times> bytes) list"
  | SetData "string list"

text \<open>\<open>Len()\<close>, the size estimate: 16 bytes of overhead for each element of a container.\<close>

fun Len :: "DataEntity \<Rightarrow> int" where
  "Len (StringData d) = int (blen d)"
| "Len (ListData l) = (\<Sum>b\<leftarrow>l. int (blen b) + 16)"
| "Len (HashData h) = (\<Sum>(k, v)\<leftarrow>h. int (length k) + int (blen v) + 16)"
| "Len (SetData m) = (\<Sum>k\<leftarrow>m. int (length k) + 16)"

section \<open>The eviction caches (package lru)\<close>

datatype RemoveReason =
    RemoveReasonEvicted
  | RemoveReasonExpired
  | RemoveReasonDeleted
  | RemoveReasonCleared

text \<open>
  A call of the removal callback \<open>OnEvicted(key, value, reason)\<close>. The cache functions
  below return the calls they make, in order; the database applies its callback to them.
  The callback of this repository touches the TTL table and the list of evicted keys
  only, never the cache, so running it after the cache function has returned gives the
  state that running it inside the function gives.
\<close>

type_synonym removal = "string \<times> DataEntity \<times> RemoveReason"

text \<open>
  Both caches are modelled for \<open>ttl = 0\<close>, the only value this repository passes to
  \<open>Add\<close>: \<open>expiresAt\<close> is then 0 in every entry, each test \<open>expiresAt > 0\<close> is false,
  and the expiration heap of the LRU cache stays empty.
\<close>

subsection \<open>LRU\<close>

text \<open>
  \<open>ll\<close> is the recency list, most recent first, of the entries; the map \<open>cache\<close> from
  a key to its list element is the lookup \<open>map_of\<close> in that list (the code keeps one
  element per key), and an element is named by its key.
\<close>

record Cache =
  maxBytes :: int
  nbytes :: int
  ll :: "(string \<times> DataEntity) list"

definition New :: "int \<Rightarrow> Cache" where
  "New mb = \<lparr>maxBytes = mb, nbytes = 0, ll = []\<rparr>"

definition MoveToFront :: "string \<Rightarrow> (string \<times> DataEntity) list \<Rightarrow> (string \<times> DataEntity) list" where
  "MoveToFront key l =
     (case map_of l key of
        None \<Rightarrow> l
      | Some v \<Rightarrow> (key, v) # filter (\<lambda>p. fst p \<noteq> key) l)"

definition removeEntry :: "Cache \<Rightarrow> string \<Rightarrow> RemoveReason \<Rightarrow> Cache \<times> removal list" where
  "removeEntry c key reason =
     (case map_of (ll c) key of
        None \<Rightarrow> (c, [])
      | Some v \<Rightarrow>
          (c\<lparr>ll := filter (\<lambda>p. fst p \<noteq> key) (ll c),
             nbytes := nbytes c - (int (length key) + Len v)\<rparr>,
           [(key, v, reason)]))"

definition RemoveOldest :: "Cache \<Rightarrow> Cache \<times> removal list" where
  "RemoveOldest c =
     (case ll c of
        [] \<Rightarrow> (c, [])
      | _ \<Rightarrow> removeEntry c (fst (last (ll c))) RemoveReasonEvicted)"

text \<open>
  The loop at the end of \<open>Add\<close>: \<open>for c.maxBytes != 0 && c.maxBytes < c.nbytes { c.RemoveOldest() }\<close>.
  It has no bound of its own; a run that never leaves it is the value \<open>None\<close>.
\<close>

partial_function (option) lru_evict :: "Cache \<Rightarrow> removal list \<Rightarrow> (Cache \<times> removal list) option" where
  "lru_evict c evs =
     (if maxBytes c \<noteq> 0 \<and> maxBytes c < nbytes c
      then lru_evict (fst (RemoveOldest c)) (evs @ snd (RemoveOldest c))
      else Some (c, evs))"

declare lru_evict.simps [code]

definition lru_Add :: "Cache \<Rightarrow> string \<Rightarrow> DataEntity \<Rightarrow> (Cache \<times> removal list) option" where
  "lru_Add c key val =
     lru_evict
       (case map_of (ll c) key of
          Some old \<Rightarrow>
            c\<lparr>ll := (key, val) # filter (\<lambda>p. fst p \<noteq> key) (ll c),
              nbytes := nbytes c + (Len val - Len old)\<rparr>
        | None \<Rightarrow>
            c\<lparr>ll := (key, val) # ll c,
              nbytes := nbytes c + (int (length key) + Len val)\<rparr>)
       []"

definition lru_Get :: "Cache \<Rightarrow> string \<Rightarrow> DataEntity option \<times> Cache" where
  "lru_Get c key = (map_of (ll c) key, c\<lparr>ll := MoveToFront key (ll c)\<rparr>)"

definition lru_Peek :: "Cache \<Rightarrow> string \<Rightarrow> DataEntity option" where
  "lru_Peek c key = map_of (ll c) key"

definition lru_Remove :: "Cache \<Rightarrow> string \<Rightarrow> Cache \<times> removal list" where
  "lru_Remove c key = removeEntry c key RemoveReasonDeleted"

definition lru_Len :: "Cache \<Rightarrow> nat" where
  "lru_Len c = length (ll c)"

definition lru_ForEach :: "Cache \<Rightarrow> (string \<times> DataEntity) list" where
  "lru_ForEach c = ll c"

text \<open>
  A container value is a Go reference (\<open>*list.List\<close>, \<open>map\<close>): the handler that got it
  from \<open>Get\<close> and changes it changes the object the entry holds. \<open>lru_mutate\<close> is that
  change as the cache sees it; \<open>nbytes\<close> is not touched by it.
\<close>

definition lru_mutate :: "Cache \<Rightarrow> string \<Rightarrow> DataEntity \<Rightarrow> Cache" where
  "lru_mutate c key val = c\<lparr>ll := map (\<lambda>p. if fst p = key then (key, val) else p) (ll c)\<rparr>"

text \<open>The sum of the size estimates of the entries, each with its key.\<close>

definition lru_total :: "Cache \<Rightarrow> int" where
  "lru_total c = (\<Sum>(k, v)\<leftarrow>ll c. int (length k) + Len v)"

subsection \<open>LFU\<close>

text \<open>
  \<open>items\<close> maps a key to its entry, here the value and the frequency. \<open>buckets\<close>
  maps a frequency to the list of the entries of that frequency, most recent first; an
  entry in a bucket is named by its key (the code holds the same \<open>*lfuEntry\<close> in the
  map and in the bucket). Both Go maps are association lists.
\<close>

record LFUCache =
  lfu_maxBytes :: int
  lfu_nbytes :: int
  items :: "(string \<times> (DataEntity \<times> int)) list"
  buckets :: "(int \<times> string list) list"
  minFreq :: int

definition NewLFU :: "int \<Rightarrow> LFUCache" where
  "NewLFU mb = \<lparr>lfu_maxBytes = mb, lfu_nbytes = 0, items = [], buckets = [], minFreq = 0\<rparr>"

text \<open>\<open>getOrCreateBucket(freq)\<close> followed by \<open>PushFront\<close> of the entry.\<close>

definition bucket_PushFront :: "int \<Rightarrow> string \<Rightarrow> (int \<times> string list) list \<Rightarrow> (int \<times> string list) list" where
  "bucket_PushFront f key bs =
     (case map_of bs f of
        None \<Rightarrow> AList.update f [key] bs
      | Some b \<Rightarrow> AList.update f (key # b) bs)"

text \<open>
  \<open>recalculateMinFreq\<close>: starting from 0, each bucket that is not empty lowers the
  cursor to its frequency when the cursor is 0 or above it.
\<close>

definition minfreq_step :: "int \<times> string list \<Rightarrow> int \<Rightarrow> int" where
  "minfreq_step p m = (case p of (f, l) \<Rightarrow> if l = [] then m else if m = 0 \<or> f < m then f else m)"

definition recalculateMinFreq :: "LFUCache \<Rightarrow> LFUCache" where
  "recalculateMinFreq c = c\<lparr>minFreq := fold minfreq_step (buckets c) 0\<rparr>"

definition increment :: "LFUCache \<Rightarrow> string \<Rightarrow> LFUCache" where
  "increment c key =
     (case map_of (items c) key of
        None \<Rightarrow> c
      | Some (v, oldFreq) \<Rightarrow>
          (let c1 =
                 (case map_of (buckets c) oldFreq of
                    None \<Rightarrow> c
                  | Some oldBucket \<Rightarrow>
                      if remove1 key oldBucket = []
                      then c\<lparr>buckets := AList.delete oldFreq (buckets c),
                             minFreq := (if minFreq c = oldFreq then oldFreq + 1 else minFreq c)\<rparr>
                      else c\<lparr>buckets := AList.update oldFreq (remove1 key oldBucket) (buckets c)\<rparr>)
           in c1\<lparr>items := AList.update key (v, oldFreq + 1) (items c1),
                 buckets := bucket_PushFront (oldFreq + 1) key (buckets c1)\<rparr>))"

definition lfu_removeEntry :: "LFUCache \<Rightarrow> string \<Rightarrow> RemoveReason \<Rightarrow> LFUCache \<times> removal list" where
  "lfu_removeEntry c key reason =
     (case map_of (items c) key of
        None \<Rightarrow> (c, [])
      | Some (v, freq) \<Rightarrow>
          (let c1 =
                 (case map_of (buckets c) freq of
                    None \<Rightarrow> c
                  | Some b \<Rightarrow>
                      if remove1 key b = []
                      then
                        (let c' = c\<lparr>buckets := AList.delete freq (buckets c)\<rparr>
                         in if minFreq c = freq
                            then if length (items c) = 1 then c'\<lparr>minFreq := 0\<rparr>
                                 else if map_of (buckets c') (freq + 1) = None
                                      then recalculateMinFreq (c'\<lparr>minFreq := freq + 1\<rparr>)
                                      else c'\<lparr>minFreq := freq + 1\<rparr>
                            else c')
                      else c\<lparr>buckets := AList.update freq (remove1 key b) (buckets c)\<rparr>)
           in (c1\<lparr>items := AList.delete key (items c1),
                   lfu_nbytes := lfu_nbytes c1 - (int (length key) + Len v)\<rparr>,
               [(key, v, reason)])))"

text \<open>
  The search loop of \<open>evictOne\<close> for a bucket that is not empty:
  \<open>for b == nil || b.Len() == 0 { delete(c.buckets, c.minFreq); c.minFreq++; ... }\<close>,
  with its guard at one million.
\<close>

definition bucket_empty :: "LFUCache \<Rightarrow> bool" where
  "bucket_empty c = (case map_of (buckets c) (minFreq c) of None \<Rightarrow> True | Some b \<Rightarrow> b = [])"

function lfu_scan :: "LFUCache \<Rightarrow> LFUCache" where
  "lfu_scan c =
     (if bucket_empty c
      then
        (let c1 = c\<lparr>buckets := AList.delete (minFreq c) (buckets c), minFreq := minFreq c + 1\<rparr>
         in if minFreq c1 > 1000000 then recalculateMinFreq c1 else lfu_scan c1)
      else c)"
  by pat_completeness auto
termination
  by (relation "measure (\<lambda>c. nat (1000001 - minFreq c))") auto

declare lfu_scan.simps [simp del]

definition evictOne :: "LFUCache \<Rightarrow> LFUCache \<times> removal list" where
  "evictOne c =
     (if items c = [] then (c\<lparr>minFreq := 0\<rparr>, [])
      else
        (let c1 = lfu_scan c
         in case map_of (buckets c1) (minFreq c1) of
              None \<Rightarrow> (c1, [])
            | Some b \<Rightarrow>
                if b = [] then (c1, [])
                else lfu_removeEntry c1 (last b) RemoveReasonEvicted))"

text \<open>The loop at the end of \<open>Add\<close>: \<open>for c.maxBytes != 0 && c.nbytes > c.maxBytes { c.evictOne() }\<close>.\<close>

partial_function (option) lfu_evict :: "LFUCache \<Rightarrow> removal list \<Rightarrow> (LFUCache \<times> removal list) option" where
  "lfu_evict c evs =
     (if lfu_maxBytes c \<noteq> 0 \<and> lfu_nbytes c > lfu_maxBytes c
      then lfu_evict (fst (evictOne c)) (evs @ snd (evictOne c))
      else Some (c, evs))"

declare lfu_evict.simps [code]

definition lfu_Add :: "LFUCache \<Rightarrow> string \<Rightarrow> DataEntity \<Rightarrow> (LFUCache \<times> removal list) option" where
  "lfu_Add c key val =
     lfu_evict
       (case map_of (items c) key of
          Some (old, freq) \<Rightarrow>
            increment
              (c\<lparr>lfu_nbytes := lfu_nbytes c + (Len val - Len old),
                 items := AList.update key (val, freq) (items c)\<rparr>)
              key
        | None \<Rightarrow>
            c\<lparr>buckets := bucket_PushFront 1 key (buckets c),
              items := AList.update key (val, 1) (items c),
              lfu_nbytes := lfu_nbytes c + (int (length key) + Len val),
              minFreq := 1\<rparr>)
       []"

definition lfu_Get :: "LFUCache \<Rightarrow> string \<Rightarrow> DataEntity option \<times> LFUCache" where
  "lfu_Get c key =
     (case map_of (items c) key of
        None \<Rightarrow> (None, c)
      | Some (v, freq) \<Rightarrow> (Some v, increment c key))"

definition lfu_Peek :: "LFUCache \<Rightarrow> string \<Rightarrow> DataEntity option" where
  "lfu_Peek c key = map_option fst (map_of (items c) key)"

definition lfu_Remove :: "LFUCache \<Rightarrow> string \<Rightarrow> LFUCache \<times> removal list" where
  "lfu_Remove c key = lfu_removeEntry c key RemoveReasonDeleted"

definition lfu_Len :: "LFUCache \<Rightarrow> nat" where
  "lfu_Len c = length (items c)"

definition lfu_ForEach :: "LFUCache \<Rightarrow> (string \<times> DataEntity) list" where
  "lfu_ForEach c = map (\<lambda>(k, v, f). (k, v)) (items c)"

definition lfu_mutate :: "LFUCache \<Rightarrow> string \<Rightarrow> DataEntity \<Rightarrow> LFUCache" where
  "lfu_mutate c key val =
     c\<lparr>items := map (\<lambda>p. if fst p = key then (key, val, snd (snd p)) else p) (items c)\<rparr>"

definition lfu_total :: "LFUCache \<Rightarrow> int" where
  "lfu_total c = (\<Sum>(k, v, f)\<leftarrow>items c. int (length k) + Len v)"

subsection \<open>The interface \<open>EvictionCache\<close>\<close>

datatype EvictionCache = LRU Cache | LFU LFUCache

fun cache_Add :: "EvictionCache \<Rightarrow> string \<Rightarrow> DataEntity \<Rightarrow> (EvictionCache \<times> removal list) option" where
  "cache_Add (LRU c) key val = map_option (\<lambda>(c', evs). (LRU c', evs)) (lru_Add c key val)"
| "cache_Add (LFU c) key val = map_option (\<lambda>(c', evs). (LFU c', evs)) (lfu_Add c key val)"

fun cache_Get :: "EvictionCache \<Rightarrow> string \<Rightarrow> DataEntity option \<times> EvictionCache" where
  "cache_Get (LRU c) key = (fst (lru_Get c key), LRU (snd (lru_Get c key)))"
| "cache_Get (LFU c) key = (fst (lfu_Get c key), LFU (snd (lfu_Get c key)))"

fun cache_Peek :: "EvictionCache \<Rightarrow> string \<Rightarrow> DataEntity option" where
  "cache_Peek (LRU c) key = lru_Peek c key"
| "cache_Peek (LFU c) key = lfu_Peek c key"

fun cache_Remove :: "EvictionCache \<Rightarrow> string \<Rightarrow> EvictionCache \<times> removal list" where
  "cache_Remove (LRU c) key = (LRU (fst (lru_Remove c key)), snd (lru_Remove c key))"
| "cache_Remove (LFU c) key = (LFU (fst (lfu_Remove c key)), snd (lfu_Remove c key))"

fun cache_ForEach :: "EvictionCache \<Rightarrow> (string \<times> DataEntity) list" where
  "cache_ForEach (LRU c) = lru_ForEach c"
| "cache_ForEach (LFU c) = lfu_ForEach c"

fun cache_Len :: "EvictionCache \<Rightarrow> nat" where
  "cache_Len (LRU c) = lru_Len c"
| "cache_Len (LFU c) = lfu_Len c"

fun cache_mutate :: "EvictionCache \<Rightarrow> string \<Rightarrow> DataEntity \<Rightarrow> EvictionCache" where
  "cache_mutate (LRU c) key val = LRU (lru_mutate c key val)"
| "cache_mutate (LFU c) key val = LFU (lfu_mutate c key val)"

fun cache_nbytes :: "EvictionCache \<Rightarrow> int" where
  "cache_nbytes (LRU c) = nbytes c"
| "cache_nbytes (LFU c) = lfu_nbytes c"

fun cache_maxBytes :: "EvictionCache \<Rightarrow> int" where
  "cache_maxBytes (LRU c) = maxBytes c"
| "cache_maxBytes (LFU c) = lfu_maxBytes c"

fun cache_total :: "EvictionCache \<Rightarrow> int" where
  "cache_total (LRU c) = lru_total c"
| "cache_total (LFU c) = lfu_total c"

section \<open>The execution core (package db)\<close>

text \<open>
  An instant (\<open>time.Time\<close>) is a number of nanoseconds since the Unix epoch. The clock
  is read once for each request: \<open>now\<close> is the value of every \<open>time.Now()\<close> of the
  request, and the monotonic and the wall clock agree.
\<close>

type_synonym Time = int

definition UnixMilli :: "Time \<Rightarrow> int" where
  "UnixMilli t = t div 1000000"

definition time_UnixMilli :: "int \<Rightarrow> Time" where
  "time_UnixMilli ms = ms * 1000000"

text \<open>
  The state of \<open>StandaloneDB\<close> that the executor owns. \<open>aofHandler\<close> is \<open>None\<close> for
  the nil handler, and otherwise the arguments of the calls of \<open>AddAof\<close> so far, in
  order (the queue of the appender). \<open>callbacks\<close> is a history variable, not a field
  of the code: every call of the removal callback, in order.
\<close>

record StandaloneDB =
  cache :: EvictionCache
  ttlMap :: "(string \<times> Time) list"
  evictedKeys :: "string list"
  aofHandler :: "bytes list list option"
  rdbFilename :: string
  rdbSaving :: bool
  aofRewriting :: bool
  callbacks :: "removal list"

text \<open>
  The outcome of the file operations of the administrative commands, which the model
  does not compute: \<open>None\<close> for success, the error text otherwise.
\<close>

record io_env =
  rdb_save_err :: "string option"
  start_rewrite_err :: "string option"
  rewrite_write_err :: "string option"
  finish_rewrite_err :: "string option"

text \<open>The callback \<open>onEvicted\<close> of \<open>NewStandaloneDBWithConfig\<close>.\<close>

definition onEvicted :: "removal \<Rightarrow> StandaloneDB \<Rightarrow> StandaloneDB" where
  "onEvicted r db =
     (case r of (key, val, reason) \<Rightarrow>
        db\<lparr>ttlMap := AList.delete key (ttlMap db),
           evictedKeys := (if reason = RemoveReasonEvicted then evictedKeys db @ [key] else evictedKeys db),
           callbacks := callbacks db @ [r]\<rparr>)"

definition NewStandaloneDBWithConfig :: "bool \<Rightarrow> string \<Rightarrow> int \<Rightarrow> string \<Rightarrow> StandaloneDB" where
  "NewStandaloneDBWithConfig aof rdb mb eviction =
     (let mb' = (if mb \<le> 0 then 100 * 1024 * 1024 else mb)
      in \<lparr>cache = (if eviction = ''lfu'' then LFU (NewLFU mb') else LRU (New mb')),
          ttlMap = [], evictedKeys = [],
          aofHandler = (if aof then Some [] else None),
          rdbFilename = rdb, rdbSaving = False, aofRewriting = False, callbacks = []\<rparr>)"

text \<open>The calls \<open>db.cache.X(...)\<close>, with the callback run on the removals.\<close>

definition db_Add :: "StandaloneDB \<Rightarrow> string \<Rightarrow> DataEntity \<Rightarrow> StandaloneDB option" where
  "db_Add db key val =
     (case cache_Add (cache db) key val of
        None \<Rightarrow> None
      | Some (c, evs) \<Rightarrow> Some (fold onEvicted evs (db\<lparr>cache := c\<rparr>)))"

definition db_Get :: "StandaloneDB \<Rightarrow> string \<Rightarrow> DataEntity option \<times> StandaloneDB" where
  "db_Get db key = (fst (cache_Get (cache db) key), db\<lparr>cache := snd (cache_Get (cache db) key)\<rparr>)"

definition db_Peek :: "StandaloneDB \<Rightarrow> string \<Rightarrow> DataEntity option" where
  "db_Peek db key = cache_Peek (cache db) key"

definition db_Remove :: "StandaloneDB \<Rightarrow> string \<Rightarrow> StandaloneDB" where
  "db_Remove db key =
     fold onEvicted (snd (cache_Remove (cache db) key)) (db\<lparr>cache := fst (cache_Remove (cache db) key)\<rparr>)"

text \<open>The change of a container through the reference that \<open>Get\<close> returned.\<close>

definition db_mutate :: "StandaloneDB \<Rightarrow> string \<Rightarrow> DataEntity \<Rightarrow> StandaloneDB" where
  "db_mutate db key val = db\<lparr>cache := cache_mutate (cache db) key val\<rparr>"

text \<open>\<open>db.aofHandler.AddAof(args)\<close>; the callers test the handler for nil.\<close>

definition AddAof :: "bytes list \<Rightarrow> StandaloneDB \<Rightarrow> StandaloneDB" where
  "AddAof args db = db\<lparr>aofHandler := map_option (\<lambda>log. log @ [args]) (aofHandler db)\<rparr>"

text \<open>\<open>if expireTime, ok := db.ttlMap[key]; ok { if time.Now().After(expireTime) ...\<close>\<close>

definition past_due :: "Time \<Rightarrow> StandaloneDB \<Rightarrow> string \<Rightarrow> bool" where
  "past_due now db key = (case map_of (ttlMap db) key of None \<Rightarrow> False | Some t \<Rightarrow> now > t)"

definition WRONGTYPE :: reply where
  "WRONGTYPE = MakeErrReply ''WRONGTYPE Operation against a key holding the wrong kind of value''"

definition wrong_args :: "string \<Rightarrow> reply" where
  "wrong_args name = MakeErrReply (''ERR wrong number of arguments for '' @ [CHR 0x27] @ name @ [CHR 0x27] @ '' command'')"

definition not_integer :: reply where
  "not_integer = MakeErrReply ''ERR value is not an integer or out of range''"

subsection \<open>Strings (db/basic.go)\<close>

definition set_cmd :: "StandaloneDB \<Rightarrow> bytes list \<Rightarrow> (reply \<times> StandaloneDB) option" where
  "set_cmd db args =
     (if length args \<noteq> 3 then Some (wrong_args ''set'', db)
      else
        (let key = str (args ! 1); val = args ! 2
         in case db_Add db key (StringData val) of
              None \<Rightarrow> None
            | Some db1 \<Rightarrow> Some (OkReply, db1\<lparr>ttlMap := AList.delete key (ttlMap db1)\<rparr>)))"

definition get_cmd :: "Time \<Rightarrow> StandaloneDB \<Rightarrow> bytes list \<Rightarrow> reply \<times> StandaloneDB" where
  "get_cmd now db args =
     (if length args \<noteq> 2 then (wrong_args ''get'', db)
      else
        (let key = str (args ! 1); (val, db1) = db_Get db key
         in case val of
              None \<Rightarrow> (NullBulkReply, db1)
            | Some v \<Rightarrow>
                if past_due now db1 key then (NullBulkReply, db_Remove db1 key)
                else
                  (case v of
                     StringData s \<Rightarrow> (MakeBulkReply s, db1)
                   | _ \<Rightarrow> (WRONGTYPE, db1))))"

text \<open>The loop of \<open>del\<close> over \<open>args[1:]\<close>, with the count of the keys removed.\<close>

fun del_loop :: "bytes list \<Rightarrow> nat \<Rightarrow> StandaloneDB \<Rightarrow> nat \<times> StandaloneDB" where
  "del_loop [] deleted db = (deleted, db)"
| "del_loop (k # ks) deleted db =
     (case db_Peek db (str k) of
        None \<Rightarrow> del_loop ks deleted db
      | Some v \<Rightarrow> del_loop ks (deleted + 1) (db_Remove db (str k)))"

definition del_cmd :: "StandaloneDB \<Rightarrow> bytes list \<Rightarrow> reply \<times> StandaloneDB" where
  "del_cmd db args =
     (if length args < 2 then (wrong_args ''del'', db)
      else
        (let (deleted, db1) = del_loop (tl args) 0 db
         in (MakeIntReply (of_nat deleted), db1)))"

subsection \<open>Lists\<close>

text \<open>
  \<open>getListForWrite\<close>: the list to write to, with a flag that says whether it is a new
  list (\<open>list.New()\<close>) rather than the one the cache entry holds, or the error reply.
\<close>

definition getListForWrite ::
  "Time \<Rightarrow> StandaloneDB \<Rightarrow> string \<Rightarrow> (reply + (bytes list \<times> bool)) \<times> StandaloneDB" where
  "getListForWrite now db key =
     (let (val, db1) = db_Get db key
      in case val of
           None \<Rightarrow> (Inr ([], True), db1)
         | Some v \<Rightarrow>
             if past_due now db1 key then (Inr ([], True), db_Remove db1 key)
             else
               (case v of
                  ListData l \<Rightarrow> (Inr (l, False), db1)
                | _ \<Rightarrow> (Inl WRONGTYPE, db1)))"

text \<open>
  The end of a container write: the changed container is in the entry already when it
  is the entry's own object, and is then handed to \<open>Add\<close>.
\<close>

definition store_back :: "StandaloneDB \<Rightarrow> string \<Rightarrow> bool \<Rightarrow> DataEntity \<Rightarrow> StandaloneDB option" where
  "store_back db key fresh val = db_Add (if fresh then db else db_mutate db key val) key val"

definition lpush :: "Time \<Rightarrow> StandaloneDB \<Rightarrow> bytes list \<Rightarrow> (reply \<times> StandaloneDB) option" where
  "lpush now db args =
     (if length args < 3 then Some (wrong_args ''lpush'', db)
      else
        (let key = str (args ! 1); values = drop 2 args
         in case getListForWrite now db key of
              (Inl errReply, db1) \<Rightarrow> Some (errReply, db1)
            | (Inr (l, fresh), db1) \<Rightarrow>
                (let l' = rev values @ l
                 in case store_back db1 key fresh (ListData l') of
                      None \<Rightarrow> None
                    | Some db2 \<Rightarrow> Some (MakeIntReply (of_nat (length l')), db2))))"

definition rpush :: "Time \<Rightarrow> StandaloneDB \<Rightarrow> bytes list \<Rightarrow> (reply \<times> StandaloneDB) option" where
  "rpush now db args =
     (if length args < 3 then Some (wrong_args ''rpush'', db)
      else
        (let key = str (args ! 1); values = drop 2 args
         in case getListForWrite now db key of
              (Inl errReply, db1) \<Rightarrow> Some (errReply, db1)
            | (Inr (l, fresh), db1) \<Rightarrow>
                (let l' = l @ values
                 in case store_back db1 key fresh (ListData l') of
                      None \<Rightarrow> None
                    | Some db2 \<Rightarrow> Some (MakeIntReply (of_nat (length l')), db2))))"

text \<open>
  \<open>lpop\<close> and \<open>rpop\<close>: the element is taken out of the entry's own list before the key
  is removed or stored again.
\<close>

definition lpop :: "Time \<Rightarrow> StandaloneDB \<Rightarrow> bytes list \<Rightarrow> (reply \<times> StandaloneDB) option" where
  "lpop now db args =
     (if length args \<noteq> 2 then Some (wrong_args ''lpop'', db)
      else
        (let key = str (args ! 1); (val, db1) = db_Get db key
         in case val of
              None \<Rightarrow> Some (NullBulkReply, db1)
            | Some v \<Rightarrow>
                if past_due now db1 key then Some (NullBulkReply, db_Remove db1 key)
                else
                  (case v of
                     ListData l \<Rightarrow>
                       (case l of
                          [] \<Rightarrow> Some (NullBulkReply, db1)
                        | front # l' \<Rightarrow>
                            (let db2 = db_mutate db1 key (ListData l')
                             in if l' = [] then Some (MakeBulkReply front, db_Remove db2 key)
                                else
                                  (case db_Add db2 key (ListData l') of
                                     None \<Rightarrow> None
                                   | Some db3 \<Rightarrow> Some (MakeBulkReply front, db3))))
                   | _ \<Rightarrow> Some (WRONGTYPE, db1))))"

definition rpop :: "Time \<Rightarrow> StandaloneDB \<Rightarrow> bytes list \<Rightarrow> (reply \<times> StandaloneDB) option" where
  "rpop now db args =
     (if length args \<noteq> 2 then Some (wrong_args ''rpop'', db)
      else
        (let key = str (args ! 1); (val, db1) = db_Get db key
         in case val of
              None \<Rightarrow> Some (NullBulkReply, db1)
            | Some v \<Rightarrow>
                if past_due now db1 key then Some (NullBulkReply, db_Remove db1 key)
                else
                  (case v of
                     ListData l \<Rightarrow>
                       if l = [] then Some (NullBulkReply, db1)
                       else
                         (let back = last l; l' = butlast l;
                              db2 = db_mutate db1 key (ListData l')
                          in if l' = [] then Some (MakeBulkReply back, db_Remove db2 key)
                             else
                               (case db_Add db2 key (ListData l') of
                                  None \<Rightarrow> None
                                | Some db3 \<Rightarrow> Some (MakeBulkReply back, db3)))
                   | _ \<Rightarrow> Some (WRONGTYPE, db1))))"

definition llen :: "Time \<Rightarrow> StandaloneDB \<Rightarrow> bytes list \<Rightarrow> reply \<times> StandaloneDB" where
  "llen now db args =
     (if length args \<noteq> 2 then (wrong_args ''llen'', db)
      else
        (let key = str (args ! 1); (val, db1) = db_Get db key
         in case val of
              None \<Rightarrow> (MakeIntReply 0, db1)
            | Some v \<Rightarrow>
                if past_due now db1 key then (MakeIntReply 0, db_Remove db1 key)
                else
                  (case v of
                     ListData l \<Rightarrow> (MakeIntReply (of_nat (length l)), db1)
                   | _ \<Rightarrow> (WRONGTYPE, db1))))"

text \<open>
  The index arithmetic of \<open>lrange\<close> on a list of \<open>size\<close> elements: the reply for the
  start and stop given. The loop collects the elements at the positions from \<open>start\<close>
  to \<open>stop\<close> into a slice made by \<open>make\<close>, which is not nil.
\<close>

definition lrange_reply :: "bytes list \<Rightarrow> int \<Rightarrow> int \<Rightarrow> reply" where
  "lrange_reply l start0 stop0 =
     (let size = int (length l);
          start1 = (if start0 < 0 then size + start0 else start0);
          stop1 = (if stop0 < 0 then size + stop0 else stop0);
          start = (if start1 < 0 then 0 else start1);
          stop = (if stop1 \<ge> size then size - 1 else stop1)
      in if start > stop then MakeMultiBulkReply None
         else MakeMultiBulkReply (Some (take (nat (stop - start + 1)) (drop (nat start) l))))"

definition lrange :: "Time \<Rightarrow> StandaloneDB \<Rightarrow> bytes list \<Rightarrow> reply \<times> StandaloneDB" where
  "lrange now db args =
     (if length args \<noteq> 4 then (wrong_args ''lrange'', db)
      else
        (let key = str (args ! 1)
         in case (Atoi (str (args ! 2)), Atoi (str (args ! 3))) of
              (Some start, Some stop) \<Rightarrow>
                (let (val, db1) = db_Get db key
                 in case val of
                      None \<Rightarrow> (MakeMultiBulkReply None, db1)
                    | Some v \<Rightarrow>
                        if past_due now db1 key then (MakeMultiBulkReply None, db_Remove db1 key)
                        else
                          (case v of
                             ListData l \<Rightarrow> (lrange_reply l start stop, db1)
                           | _ \<Rightarrow> (WRONGTYPE, db1)))
            | _ \<Rightarrow> (not_integer, db)))"

subsection \<open>Hashes (db/hash.go)\<close>

text \<open>
  \<open>getHash\<close>: the hash of the key when the key is live and holds one. This version
  reports a lazy expiry to the append log as \<open>del key\<close>.
\<close>

definition getHash :: "Time \<Rightarrow> StandaloneDB \<Rightarrow> string \<Rightarrow> (string \<times> bytes) list option \<times> StandaloneDB" where
  "getHash now db key =
     (let (val, db1) = db_Get db key
      in case val of
           None \<Rightarrow> (None, db1)
         | Some v \<Rightarrow>
             if past_due now db1 key
             then (None, AddAof [Some ''del'', Some key] (db_Remove db1 key))
             else
               (case v of
                  HashData h \<Rightarrow> (Some h, db1)
                | _ \<Rightarrow> (None, db1)))"

text \<open>
  The second lookup that the hash commands make when \<open>getHash\<close> found no hash:
  \<open>True\<close> when the key exists and holds a value that is not a hash.
\<close>

definition is_HashData :: "DataEntity \<Rightarrow> bool" where
  "is_HashData v = (case v of HashData h \<Rightarrow> True | _ \<Rightarrow> False)"

definition is_SetData :: "DataEntity \<Rightarrow> bool" where
  "is_SetData v = (case v of SetData m \<Rightarrow> True | _ \<Rightarrow> False)"

text \<open>The loop of \<open>hset\<close> over the field and value pairs of \<open>args[2:]\<close>.\<close>

fun hset_loop :: "bytes list \<Rightarrow> (string \<times> bytes) list \<Rightarrow> nat \<Rightarrow> (string \<times> bytes) list \<times> nat" where
  "hset_loop (f # v # rest) h cnt =
     hset_loop rest (AList.update (str f) v h) (if map_of h (str f) = None then cnt + 1 else cnt)"
| "hset_loop _ h cnt = (h, cnt)"

definition hset_store :: "StandaloneDB \<Rightarrow> string \<Rightarrow> bytes list \<Rightarrow> (string \<times> bytes) list \<Rightarrow> bool \<Rightarrow> (reply \<times> StandaloneDB) option" where
  "hset_store db key args h fresh =
     (let (h', cnt) = hset_loop (drop 2 args) h 0
      in case store_back db key fresh (HashData h') of
           None \<Rightarrow> None
         | Some db1 \<Rightarrow> Some (MakeIntReply (of_nat cnt), db1))"

definition hset :: "Time \<Rightarrow> StandaloneDB \<Rightarrow> bytes list \<Rightarrow> (reply \<times> StandaloneDB) option" where
  "hset now db args =
     (if length args < 4 \<or> length args mod 2 \<noteq> 0 then Some (wrong_args ''hset'', db)
      else
        (let key = str (args ! 1)
         in case getHash now db key of
              (Some h, db1) \<Rightarrow> hset_store db1 key args h False
            | (None, db1) \<Rightarrow>
                (let (val, db2) = db_Get db1 key
                 in case val of
                      None \<Rightarrow> hset_store db2 key args [] True
                    | Some v \<Rightarrow>
                        if is_HashData v then hset_store db2 key args [] True
                        else if past_due now db2 key
                        then hset_store (AddAof [Some ''del'', Some key] (db_Remove db2 key)) key args [] True
                        else Some (WRONGTYPE, db2))))"

definition hget :: "Time \<Rightarrow> StandaloneDB \<Rightarrow> bytes list \<Rightarrow> reply \<times> StandaloneDB" where
  "hget now db args =
     (if length args \<noteq> 3 then (wrong_args ''hget'', db)
      else
        (let key = str (args ! 1); field = str (args ! 2)
         in case getHash now db key of
              (Some h, db1) \<Rightarrow>
                (case map_of h field of
                   None \<Rightarrow> (NullBulkReply, db1)
                 | Some val \<Rightarrow> (MakeBulkReply val, db1))
            | (None, db1) \<Rightarrow>
                (let (val, db2) = db_Get db1 key
                 in case val of
                      None \<Rightarrow> (NullBulkReply, db2)
                    | Some v \<Rightarrow> if is_HashData v then (NullBulkReply, db2) else (WRONGTYPE, db2))))"

definition hgetall :: "Time \<Rightarrow> StandaloneDB \<Rightarrow> bytes list \<Rightarrow> reply \<times> StandaloneDB" where
  "hgetall now db args =
     (if length args \<noteq> 2 then (wrong_args ''hgetall'', db)
      else
        (let key = str (args ! 1)
         in case getHash now db key of
              (Some h, db1) \<Rightarrow>
                (MakeMultiBulkReply (Some (concat (map (\<lambda>(k, v). [Some k, v]) h))), db1)
            | (None, db1) \<Rightarrow>
                (let (val, db2) = db_Get db1 key
                 in case val of
                      None \<Rightarrow> (MakeMultiBulkReply None, db2)
                    | Some v \<Rightarrow>
                        if is_HashData v then (MakeMultiBulkReply None, db2) else (WRONGTYPE, db2))))"

text \<open>The loop of \<open>hdel\<close> over the fields \<open>args[2:]\<close>.\<close>

fun hdel_loop :: "bytes list \<Rightarrow> (string \<times> bytes) list \<Rightarrow> nat \<Rightarrow> (string \<times> bytes) list \<times> nat" where
  "hdel_loop [] h cnt = (h, cnt)"
| "hdel_loop (f # rest) h cnt =
     (if map_of h (str f) \<noteq> None then hdel_loop rest (AList.delete (str f) h) (cnt + 1)
      else hdel_loop rest h cnt)"

definition hdel :: "Time \<Rightarrow> StandaloneDB \<Rightarrow> bytes list \<Rightarrow> (reply \<times> StandaloneDB) option" where
  "hdel now db args =
     (if length args < 3 then Some (wrong_args ''hdel'', db)
      else
        (let key = str (args ! 1)
         in case getHash now db key of
              (Some h, db1) \<Rightarrow>
                (let (h', cnt) = hdel_loop (drop 2 args) h 0;
                     db2 = db_mutate db1 key (HashData h')
                 in if h' = [] then Some (MakeIntReply (of_nat cnt), db_Remove db2 key)
                    else
                      (case db_Add db2 key (HashData h') of
                         None \<Rightarrow> None
                       | Some db3 \<Rightarrow> Some (MakeIntReply (of_nat cnt), db3)))
            | (None, db1) \<Rightarrow>
                (let (val, db2) = db_Get db1 key
                 in case val of
                      None \<Rightarrow> Some (MakeIntReply 0, db2)
                    | Some v \<Rightarrow>
                        if is_HashData v then Some (MakeIntReply 0, db2) else Some (WRONGTYPE, db2))))"

subsection \<open>Sets\<close>

definition getSet :: "Time \<Rightarrow> StandaloneDB \<Rightarrow> string \<Rightarrow> string list option \<times> StandaloneDB" where
  "getSet now db key =
     (let (val, db1) = db_Get db key
      in case val of
           None \<Rightarrow> (None, db1)
         | Some v \<Rightarrow>
             if past_due now db1 key then (None, db_Remove db1 key)
             else
               (case v of
                  SetData m \<Rightarrow> (Some m, db1)
                | _ \<Rightarrow> (None, db1)))"

text \<open>The loop of \<open>sadd\<close> over the members.\<close>

fun sadd_loop :: "bytes list \<Rightarrow> string list \<Rightarrow> nat \<Rightarrow> string list \<times> nat" where
  "sadd_loop [] m added = (m, added)"
| "sadd_loop (x # rest) m added =
     (if str x \<in> set m then sadd_loop rest m added
      else sadd_loop rest (m @ [str x]) (added + 1))"

definition sadd_store :: "StandaloneDB \<Rightarrow> string \<Rightarrow> bytes list \<Rightarrow> string list \<Rightarrow> bool \<Rightarrow> (reply \<times> StandaloneDB) option" where
  "sadd_store db key args m fresh =
     (let (m', added) = sadd_loop (drop 2 args) m 0
      in if added > 0 \<or> m' = []
         then
           (case store_back db key fresh (SetData m') of
              None \<Rightarrow> None
            | Some db1 \<Rightarrow> Some (MakeIntReply (of_nat added), db1))
         else Some (MakeIntReply (of_nat added), db))"

definition sadd :: "Time \<Rightarrow> StandaloneDB \<Rightarrow> bytes list \<Rightarrow> (reply \<times> StandaloneDB) option" where
  "sadd now db args =
     (if length args < 3 then Some (wrong_args ''sadd'', db)
      else
        (let key = str (args ! 1)
         in case getSet now db key of
              (Some m, db1) \<Rightarrow> sadd_store db1 key args m False
            | (None, db1) \<Rightarrow>
                (let (val, db2) = db_Get db1 key
                 in case val of
                      None \<Rightarrow> sadd_store db2 key args [] True
                    | Some v \<Rightarrow>
                        if is_SetData v then sadd_store db2 key args [] True
                        else if past_due now db2 key
                        then sadd_store (db_Remove db2 key) key args [] True
                        else Some (WRONGTYPE, db2))))"

text \<open>The loop of \<open>srem\<close> over the members.\<close>

fun srem_loop :: "bytes list \<Rightarrow> string list \<Rightarrow> nat \<Rightarrow> string list \<times> nat" where
  "srem_loop [] m removed = (m, removed)"
| "srem_loop (x # rest) m removed =
     (if str x \<in> set m then srem_loop rest (removeAll (str x) m) (removed + 1)
      else srem_loop rest m removed)"

definition srem :: "Time \<Rightarrow> StandaloneDB \<Rightarrow> bytes list \<Rightarrow> (reply \<times> StandaloneDB) option" where
  "srem now db args =
     (if length args < 3 then Some (wrong_args ''srem'', db)
      else
        (let key = str (args ! 1)
         in case getSet now db key of
              (Some m, db1) \<Rightarrow>
                (let (m', removed) = srem_loop (drop 2 args) m 0;
                     db2 = db_mutate db1 key (SetData m')
                 in if m' = [] then Some (MakeIntReply (of_nat removed), db_Remove db2 key)
                    else
                      (case db_Add db2 key (SetData m') of
                         None \<Rightarrow> None
                       | Some db3 \<Rightarrow> Some (MakeIntReply (of_nat removed), db3)))
            | (None, db1) \<Rightarrow>
                (let (val, db2) = db_Get db1 key
                 in case val of
                      None \<Rightarrow> Some (MakeIntReply 0, db2)
                    | Some v \<Rightarrow>
                        if is_SetData v then Some (MakeIntReply 0, db2) else Some (WRONGTYPE, db2))))"

definition scard :: "Time \<Rightarrow> StandaloneDB \<Rightarrow> bytes list \<Rightarrow> reply \<times> StandaloneDB" where
  "scard now db args =
     (if length args \<noteq> 2 then (wrong_args ''scard'', db)
      else
        (let key = str (args ! 1)
         in case getSet now db key of
              (Some m, db1) \<Rightarrow> (MakeIntReply (of_nat (length m)), db1)
            | (None, db1) \<Rightarrow>
                (let (val, db2) = db_Get db1 key
                 in case val of
                      None \<Rightarrow> (MakeIntReply 0, db2)
                    | Some v \<Rightarrow> if is_SetData v then (MakeIntReply 0, db2) else (WRONGTYPE, db2))))"

definition smembers :: "Time \<Rightarrow> StandaloneDB \<Rightarrow> bytes list \<Rightarrow> reply \<times> StandaloneDB" where
  "smembers now db args =
     (if length args \<noteq> 2 then (wrong_args ''smembers'', db)
      else
        (let key = str (args ! 1)
         in case getSet now db key of
              (Some m, db1) \<Rightarrow> (MakeMultiBulkReply (Some (map Some m)), db1)
            | (None, db1) \<Rightarrow>
                (let (val, db2) = db_Get db1 key
                 in case val of
                      None \<Rightarrow> (MakeMultiBulkReply None, db2)
                    | Some v \<Rightarrow>
                        if is_SetData v then (MakeMultiBulkReply None, db2) else (WRONGTYPE, db2))))"

subsection \<open>Expiration (db/ttl.go)\<close>

text \<open>
  \<open>time.Duration(seconds) * time.Second\<close> is a multiplication of 64-bit integers and
  wraps around; \<open>time.Now().Add(d)\<close> is exact for every 64-bit \<open>d\<close>.
\<close>

definition seconds_Duration :: "64 word \<Rightarrow> int" where
  "seconds_Duration seconds = sint (seconds * 1000000000)"

definition expire :: "Time \<Rightarrow> StandaloneDB \<Rightarrow> bytes list \<Rightarrow> reply \<times> StandaloneDB" where
  "expire now db args =
     (if length args \<noteq> 3 then (wrong_args ''expire'', db)
      else
        (let key = str (args ! 1)
         in case ParseInt (str (args ! 2)) of
              None \<Rightarrow> (not_integer, db)
            | Some seconds \<Rightarrow>
                if db_Peek db key = None then (MakeIntReply 0, db)
                else if sint seconds \<le> 0 then (MakeIntReply 1, db_Remove db key)
                else
                  (MakeIntReply 1,
                   db\<lparr>ttlMap := AList.update key (now + seconds_Duration seconds) (ttlMap db)\<rparr>)))"

definition pexpireat :: "Time \<Rightarrow> StandaloneDB \<Rightarrow> bytes list \<Rightarrow> reply \<times> StandaloneDB" where
  "pexpireat now db args =
     (if length args \<noteq> 3 then (wrong_args ''pexpireat'', db)
      else
        (let key = str (args ! 1)
         in case ParseInt (str (args ! 2)) of
              None \<Rightarrow> (not_integer, db)
            | Some ms \<Rightarrow>
                if db_Peek db key = None then (MakeIntReply 0, db)
                else
                  (let expireAt = time_UnixMilli (sint ms)
                   in if \<not> expireAt > now then (MakeIntReply 1, db_Remove db key)
                      else (MakeIntReply 1, db\<lparr>ttlMap := AList.update key expireAt (ttlMap db)\<rparr>))))"

text \<open>
  \<open>int64(ttl.Seconds())\<close> for a positive duration: the whole seconds of it. (The code
  goes through a \<open>float64\<close>, which is not modelled.)
\<close>

definition whole_seconds :: "int \<Rightarrow> 64 word" where
  "whole_seconds d = word_of_int (min d (2 ^ 63 - 1) div 1000000000)"

definition ttl :: "Time \<Rightarrow> StandaloneDB \<Rightarrow> bytes list \<Rightarrow> reply \<times> StandaloneDB" where
  "ttl now db args =
     (if length args \<noteq> 2 then (wrong_args ''ttl'', db)
      else
        (let key = str (args ! 1)
         in if db_Peek db key = None then (MakeIntReply (- 2), db)
            else
              (case map_of (ttlMap db) key of
                 None \<Rightarrow> (MakeIntReply (- 1), db)
               | Some expireTime \<Rightarrow>
                   if expireTime - now \<le> 0 then (MakeIntReply (- 2), db_Remove db key)
                   else (MakeIntReply (whole_seconds (expireTime - now)), db))))"

definition persist :: "StandaloneDB \<Rightarrow> bytes list \<Rightarrow> reply \<times> StandaloneDB" where
  "persist db args =
     (if length args \<noteq> 2 then (wrong_args ''persist'', db)
      else
        (let key = str (args ! 1)
         in if db_Peek db key = None then (MakeIntReply 0, db)
            else if map_of (ttlMap db) key = None then (MakeIntReply 0, db)
            else (MakeIntReply 1, db\<lparr>ttlMap := AList.delete key (ttlMap db)\<rparr>)))"

section \<open>Snapshots (package rdb, db/snapshot.go)\<close>

text \<open>
  \<open>rdb.Entry\<close>. The type is the \<open>uint8\<close> tag; the expiration is kept as a number and
  is cut to 64 bits where it is written. The Go map of a hash entry is an association
  list, \<open>None\<close> for the nil map.
\<close>

record Entry =
  Key :: string
  Type :: "8 word"
  ExpireAtUnixMs :: int
  String :: bytes
  List :: "bytes list"
  Hash :: "(string \<times> bytes) list option"
  Set :: "string list"

definition TypeString :: "8 word" where "TypeString = 1"
definition TypeList :: "8 word" where "TypeList = 2"
definition TypeHash :: "8 word" where "TypeHash = 3"
definition TypeSet :: "8 word" where "TypeSet = 4"

definition empty_Entry :: Entry where
  "empty_Entry = \<lparr>Key = [], Type = 0, ExpireAtUnixMs = 0, String = None, List = [], Hash = None, Set = []\<rparr>"

text \<open>
  \<open>purgeExpiredAll\<close>: for each pair of the TTL table whose instant is not after
  \<open>now\<close>, \<open>cache.Remove(key)\<close>.
\<close>

definition purgeExpiredAll :: "Time \<Rightarrow> StandaloneDB \<Rightarrow> StandaloneDB" where
  "purgeExpiredAll now db =
     fold (\<lambda>(key, t) d. if \<not> now < t then db_Remove d key else d) (ttlMap db) db"

text \<open>The entry that \<open>snapshotEntries\<close> makes of one value: a deep copy.\<close>

definition entry_of :: "string \<Rightarrow> int \<Rightarrow> DataEntity \<Rightarrow> Entry" where
  "entry_of key expireAtMs val =
     (case val of
        StringData v \<Rightarrow>
          empty_Entry\<lparr>Key := key, Type := TypeString, ExpireAtUnixMs := expireAtMs, String := clone v\<rparr>
      | ListData l \<Rightarrow>
          empty_Entry\<lparr>Key := key, Type := TypeList, ExpireAtUnixMs := expireAtMs, List := map clone l\<rparr>
      | HashData h \<Rightarrow>
          empty_Entry\<lparr>Key := key, Type := TypeHash, ExpireAtUnixMs := expireAtMs,
                       Hash := Some (map (\<lambda>(fk, fv). (fk, clone fv)) h)\<rparr>
      | SetData m \<Rightarrow>
          empty_Entry\<lparr>Key := key, Type := TypeSet, ExpireAtUnixMs := expireAtMs, Set := sort m\<rparr>)"

definition snapshot_walk :: "Time \<Rightarrow> StandaloneDB \<Rightarrow> Entry list" where
  "snapshot_walk now db =
     concat (map (\<lambda>(key, val).
                (case map_of (ttlMap db) key of
                   None \<Rightarrow> [entry_of key 0 val]
                 | Some expireAt \<Rightarrow>
                     if \<not> now < expireAt then [] else [entry_of key (UnixMilli expireAt) val]))
          (cache_ForEach (cache db)))"

definition snapshotEntries :: "Time \<Rightarrow> StandaloneDB \<Rightarrow> Entry list \<times> StandaloneDB" where
  "snapshotEntries now db =
     (let db1 = purgeExpiredAll now db
      in (sort_key Key (snapshot_walk now db1), db1))"

text \<open>The value that \<open>applySnapshot\<close> builds from an entry; \<open>None\<close> for an unknown type.\<close>

definition value_of :: "Entry \<Rightarrow> DataEntity option" where
  "value_of e =
     (if Type e = TypeString then Some (StringData (clone (String e)))
      else if Type e = TypeList then Some (ListData (map clone (List e)))
      else if Type e = TypeHash then
        Some (HashData (fold (\<lambda>(fk, fv) h. AList.update fk (clone fv) h)
                          (case Hash e of None \<Rightarrow> [] | Some h \<Rightarrow> h) []))
      else if Type e = TypeSet then
        Some (SetData (fold (\<lambda>m s. if m \<in> set s then s else s @ [m]) (Set e) []))
      else None)"

fun apply_entries :: "int \<Rightarrow> Entry list \<Rightarrow> StandaloneDB \<Rightarrow> StandaloneDB option" where
  "apply_entries nowMs [] db = Some db"
| "apply_entries nowMs (e # es) db =
     (if ExpireAtUnixMs e > 0 \<and> ExpireAtUnixMs e \<le> nowMs then apply_entries nowMs es db
      else
        (case value_of e of
           None \<Rightarrow> apply_entries nowMs es db
         | Some v \<Rightarrow>
             (case db_Add db (Key e) v of
                None \<Rightarrow> None
              | Some db1 \<Rightarrow>
                  apply_entries nowMs es
                    (if ExpireAtUnixMs e > 0
                     then db1\<lparr>ttlMap := AList.update (Key e) (time_UnixMilli (ExpireAtUnixMs e)) (ttlMap db1)\<rparr>
                     else db1))))"

definition applySnapshot :: "Time \<Rightarrow> Entry list \<Rightarrow> StandaloneDB \<Rightarrow> StandaloneDB option" where
  "applySnapshot now entries db =
     (let keys = map fst (cache_ForEach (cache db));
          db1 = fold (\<lambda>k d. db_Remove d k) keys db
      in apply_entries (UnixMilli now) entries (db1\<lparr>ttlMap := []\<rparr>))"

section \<open>Command dispatch and the append log (db/db.go)\<close>

subsection \<open>Administrative commands\<close>

text \<open>
  The administrative commands take a snapshot inside the executor, which purges the
  expired keys, and then work on files; the outcome of the file work comes from
  \<open>io_env\<close>. The background workers that \<open>BGSAVE\<close> and \<open>BGREWRITEAOF\<close> start, and
  the later reset of their flags, are steps of their own and not part of the command.
\<close>

definition save :: "Time \<Rightarrow> io_env \<Rightarrow> StandaloneDB \<Rightarrow> reply \<times> StandaloneDB" where
  "save now io db =
     (if rdbFilename db = [] then (MakeErrReply ''ERR rdb is disabled (use --rdb to enable)'', db)
      else
        (let (entries, db1) = snapshotEntries now db
         in case rdb_save_err io of
              Some err \<Rightarrow> (MakeErrReply (''ERR rdb save failed: '' @ err), db1)
            | None \<Rightarrow> (OkReply, db1)))"

definition bgsave :: "Time \<Rightarrow> io_env \<Rightarrow> StandaloneDB \<Rightarrow> reply \<times> StandaloneDB" where
  "bgsave now io db =
     (if rdbFilename db = [] then (MakeErrReply ''ERR rdb is disabled (use --rdb to enable)'', db)
      else if rdbSaving db then (MakeErrReply ''ERR Background save already in progress'', db)
      else
        (let (entries, db1) = snapshotEntries now (db\<lparr>rdbSaving := True\<rparr>)
         in (MakeStatusReply ''Background saving started'', db1)))"

definition rewriteaof :: "Time \<Rightarrow> io_env \<Rightarrow> StandaloneDB \<Rightarrow> reply \<times> StandaloneDB" where
  "rewriteaof now io db =
     (if aofHandler db = None then (MakeErrReply ''ERR aof is disabled'', db)
      else if aofRewriting db
      then (MakeErrReply ''ERR Background append only file rewriting already in progress'', db)
      else
        (case start_rewrite_err io of
           Some err \<Rightarrow> (MakeErrReply (''ERR start rewrite failed: '' @ err), db\<lparr>aofRewriting := False\<rparr>)
         | None \<Rightarrow>
             (let (entries, db1) = snapshotEntries now db; db2 = db1\<lparr>aofRewriting := False\<rparr>
              in case rewrite_write_err io of
                   Some err \<Rightarrow> (MakeErrReply (''ERR rewrite write failed: '' @ err), db2)
                 | None \<Rightarrow>
                     (case finish_rewrite_err io of
                        Some err \<Rightarrow> (MakeErrReply (''ERR rewrite finish failed: '' @ err), db2)
                      | None \<Rightarrow> (OkReply, db2)))))"

definition bgrewriteaof :: "Time \<Rightarrow> io_env \<Rightarrow> StandaloneDB \<Rightarrow> reply \<times> StandaloneDB" where
  "bgrewriteaof now io db =
     (if aofHandler db = None then (MakeErrReply ''ERR aof is disabled'', db)
      else if aofRewriting db
      then (MakeErrReply ''ERR Background append only file rewriting already in progress'', db)
      else
        (case start_rewrite_err io of
           Some err \<Rightarrow> (MakeErrReply (''ERR start rewrite failed: '' @ err), db\<lparr>aofRewriting := False\<rparr>)
         | None \<Rightarrow>
             (let (entries, db1) = snapshotEntries now (db\<lparr>aofRewriting := True\<rparr>)
              in (MakeStatusReply ''Background append only file rewriting started'', db1))))"

subsection \<open>Dispatch\<close>

text \<open>\<open>strings.ToLower\<close> on the bytes of a command name: the ASCII capitals are lowered.\<close>

definition lower_char :: "char \<Rightarrow> char" where
  "lower_char c = (if 65 \<le> (of_char c :: nat) \<and> (of_char c :: nat) \<le> 90 then char_of (of_char c + 32 :: nat) else c)"

definition ToLower :: "string \<Rightarrow> string" where
  "ToLower s = map lower_char s"

definition execInternal :: "Time \<Rightarrow> io_env \<Rightarrow> StandaloneDB \<Rightarrow> bytes list \<Rightarrow> (reply \<times> StandaloneDB) option" where
  "execInternal now io db cmd =
     (if cmd = [] then Some (NoReply, db)
      else
        (let commandName = ToLower (str (cmd ! 0))
         in if commandName = ''ping'' then Some (MakeStatusReply ''PONG'', db)
            else if commandName = ''set'' then set_cmd db cmd
            else if commandName = ''get'' then Some (get_cmd now db cmd)
            else if commandName = ''del'' then Some (del_cmd db cmd)
            else if commandName = ''lpush'' then lpush now db cmd
            else if commandName = ''rpush'' then rpush now db cmd
            else if commandName = ''lpop'' then lpop now db cmd
            else if commandName = ''rpop'' then rpop now db cmd
            else if commandName = ''lrange'' then Some (lrange now db cmd)
            else if commandName = ''llen'' then Some (llen now db cmd)
            else if commandName = ''hset'' then hset now db cmd
            else if commandName = ''hget'' then Some (hget now db cmd)
            else if commandName = ''hgetall'' then Some (hgetall now db cmd)
            else if commandName = ''hdel'' then hdel now db cmd
            else if commandName = ''sadd'' then sadd now db cmd
            else if commandName = ''srem'' then srem now db cmd
            else if commandName = ''smembers'' then Some (smembers now db cmd)
            else if commandName = ''scard'' then Some (scard now db cmd)
            else if commandName = ''expire'' then Some (expire now db cmd)
            else if commandName = ''pexpireat'' then Some (pexpireat now db cmd)
            else if commandName = ''ttl'' then Some (ttl now db cmd)
            else if commandName = ''persist'' then Some (persist db cmd)
            else if commandName = ''save'' then Some (save now io db)
            else if commandName = ''bgsave'' then Some (bgsave now io db)
            else if commandName = ''rewriteaof'' then Some (rewriteaof now io db)
            else if commandName = ''bgrewriteaof'' then Some (bgrewriteaof now io db)
            else Some (MakeErrReply (''ERR unknown command '' @ [CHR 0x27] @ commandName @ [CHR 0x27]), db)))"

definition isError :: "reply \<Rightarrow> bool" where
  "isError r = (case r of ErrorReply s \<Rightarrow> True | _ \<Rightarrow> False)"

definition writeCommands :: "string list" where
  "writeCommands = [''set'', ''del'', ''lpush'', ''rpush'', ''lpop'', ''rpop'',
                    ''hset'', ''hdel'', ''sadd'', ''srem'', ''pexpireat'']"

definition isWriteCommand :: "bytes list \<Rightarrow> bool" where
  "isWriteCommand cmd = (cmd \<noteq> [] \<and> ToLower (str (cmd ! 0)) \<in> set writeCommands)"

definition DEL_record :: "string \<Rightarrow> bytes list" where
  "DEL_record key = [Some ''DEL'', Some key]"

text \<open>\<open>appendAof\<close>: what the append log is given for a command and its reply.\<close>

definition appendAof :: "StandaloneDB \<Rightarrow> bytes list \<Rightarrow> reply \<Rightarrow> StandaloneDB" where
  "appendAof db cmd res =
     (if cmd = [] then db
      else
        (let name = ToLower (str (cmd ! 0))
         in if name = ''expire'' then
              (case res of
                 IntReply code \<Rightarrow>
                   if code \<noteq> 1 \<or> length cmd < 2 then db
                   else
                     (let key = str (cmd ! 1)
                      in case map_of (ttlMap db) key of
                           Some expireAt \<Rightarrow>
                             AddAof [Some ''PEXPIREAT'', Some key,
                                     Some (FormatInt (word_of_int (UnixMilli expireAt)))] db
                         | None \<Rightarrow> AddAof (DEL_record key) db)
               | _ \<Rightarrow> db)
            else if name = ''persist'' then
              (case res of
                 IntReply code \<Rightarrow> if code \<noteq> 1 then db else AddAof cmd db
               | _ \<Rightarrow> db)
            else if isWriteCommand cmd then AddAof cmd db
            else db))"

text \<open>
  One turn of the loop of \<open>background\<close> for a command request: the list of evicted keys
  is emptied, the command runs, and the log is written unless the request is a replay
  (\<open>noAof\<close>), there is no handler, or the reply is an error.
\<close>

definition background_step ::
  "Time \<Rightarrow> io_env \<Rightarrow> bool \<Rightarrow> bytes list \<Rightarrow> StandaloneDB \<Rightarrow> (reply \<times> StandaloneDB) option" where
  "background_step now io noAof cmd db =
     (case execInternal now io (db\<lparr>evictedKeys := []\<rparr>) cmd of
        None \<Rightarrow> None
      | Some (res, db1) \<Rightarrow>
          if \<not> noAof \<and> aofHandler db1 \<noteq> None \<and> \<not> isError res
          then Some (res, fold (\<lambda>key. AddAof (DEL_record key)) (evictedKeys db1) (appendAof db1 cmd res))
          else Some (res, db1))"

section \<open>The cluster router (package cluster)\<close>

text \<open>
  The consistent hash ring. \<open>hashToNode\<close> is the Go map from a hash to the node that was
  stored under it last.
\<close>

record Ring =
  vnodes :: int
  nodes :: "string list"
  sortedHashes :: "32 word list"
  hashToNode :: "(32 word \<times> string) list"

text \<open>
  What the router calls outside the package: the checksum \<open>crc32.ChecksumIEEE\<close> of the
  Go library, \<open>Exec\<close> of the local database (the interface \<open>db.DB\<close>), and \<open>Do\<close> of the
  client of a peer, which returns the text of a transport error or the reply read.
\<close>

record cluster_env =
  ChecksumIEEE :: "string \<Rightarrow> 32 word"
  localDB_Exec :: "bytes list \<Rightarrow> reply"
  peer_Do :: "string \<Rightarrow> bytes list \<Rightarrow> string + reply"

text \<open>
  \<open>NewRing\<close>: one hash per node and virtual node, the hashes in ascending order.
\<close>

definition NewRing :: "cluster_env \<Rightarrow> string list \<Rightarrow> int \<Rightarrow> Ring" where
  "NewRing env ns vn =
     (let vn' = (if vn \<le> 0 then 160 else vn);
          pairs = concat (map (\<lambda>node. map (\<lambda>i. (ChecksumIEEE env (node @ ''#'' @ Itoa (int i)), node))
                                        [0..<nat vn']) ns)
      in \<lparr>vnodes = vn', nodes = ns, sortedHashes = sort (map fst pairs),
          hashToNode = fold (\<lambda>(h, node) m. AList.update h node m) pairs []\<rparr>)"

text \<open>
  \<open>NodeForKey\<close>. \<open>sort.Search\<close> on the hashes that \<open>NewRing\<close> has sorted returns the
  first index whose hash is at least \<open>h\<close>, or their number if there is none; a hash
  that the map does not hold gives the empty string.
\<close>

definition NodeForKey :: "cluster_env \<Rightarrow> Ring \<Rightarrow> string \<Rightarrow> string" where
  "NodeForKey env r key =
     (if sortedHashes r = [] then []
      else
        (let h = ChecksumIEEE env key;
             idx = length (takeWhile (\<lambda>x. \<not> x \<ge> h) (sortedHashes r));
             idx' = (if idx = length (sortedHashes r) then 0 else idx)
         in case map_of (hashToNode r) (sortedHashes r ! idx') of
              None \<Rightarrow> []
            | Some node \<Rightarrow> node))"

record Router =
  localAddr :: string
  ring :: Ring

text \<open>
  \<open>peerDo\<close> looks the client of the address up, or makes it, and calls its \<open>Do\<close>.
\<close>

definition peerDo :: "cluster_env \<Rightarrow> Router \<Rightarrow> string \<Rightarrow> bytes list \<Rightarrow> string + reply" where
  "peerDo env r addr cmd = peer_Do env addr cmd"

text \<open>
  The first loop of \<open>execDel\<close>: \<open>groups[node] = append(groups[node], kb)\<close> for each key
  of \<open>cmd[1:]\<close>, the map \<open>groups\<close> as an association list.
\<close>

fun groupKeys :: "cluster_env \<Rightarrow> Router \<Rightarrow> bytes list \<Rightarrow> (string \<times> bytes list) list \<Rightarrow> (string \<times> bytes list) list" where
  "groupKeys env r [] groups = groups"
| "groupKeys env r (kb # rest) groups =
     (let node = NodeForKey env (ring r) (str kb);
          node = (if node = [] then localAddr r else node)
      in groupKeys env r rest
           (AList.update node ((case map_of groups node of None \<Rightarrow> [] | Some ks \<Rightarrow> ks) @ [kb]) groups))"

text \<open>
  \<open>delResult\<close>, and what the goroutine of one group sends on the channel \<open>results\<close>.
\<close>

record delResult =
  del_count :: "64 word"
  del_err :: "reply option"

definition delGroup :: "cluster_env \<Rightarrow> Router \<Rightarrow> string \<times> bytes list \<Rightarrow> delResult" where
  "delGroup env r g =
     (case g of (node, keys) \<Rightarrow>
        (let subCmd = Some ''DEL'' # keys
         in case (if node = localAddr r then Inr (localDB_Exec env subCmd) else peerDo env r node subCmd) of
              Inl e \<Rightarrow> \<lparr>del_count = 0, del_err = Some (MakeErrReply (''ERR cluster forward failed: '' @ e))\<rparr>
            | Inr reply \<Rightarrow>
                (case reply of
                   ErrorReply s \<Rightarrow> \<lparr>del_count = 0, del_err = Some reply\<rparr>
                 | IntReply code \<Rightarrow> \<lparr>del_count = code, del_err = None\<rparr>
                 | _ \<Rightarrow> \<lparr>del_count = 0, del_err = Some (MakeErrReply ''ERR cluster: DEL unexpected reply'')\<rparr>)))"

text \<open>
  The loop over the channel after \<open>wg.Wait()\<close>: the first error received is returned,
  and the counts are added up otherwise, in 64 bits.
\<close>

fun collectResults :: "delResult list \<Rightarrow> 64 word \<Rightarrow> reply" where
  "collectResults [] tot = MakeIntReply tot"
| "collectResults (res # rest) tot =
     (case del_err res of
        Some e \<Rightarrow> e
      | None \<Rightarrow> collectResults rest (tot + del_count res))"

text \<open>
  \<open>execDel\<close>. The goroutines send their results in an order that the code does not
  fix: \<open>order\<close> lists the indices of the groups in the order in which their results
  are received.
\<close>

definition execDel :: "cluster_env \<Rightarrow> Router \<Rightarrow> nat list \<Rightarrow> bytes list \<Rightarrow> reply" where
  "execDel env r order cmd =
     (if length cmd < 2 then wrong_args ''del''
      else
        (let groups = groupKeys env r (tl cmd) [];
             results = map (delGroup env r) groups
         in collectResults (map (\<lambda>i. results ! i) order) 0))"

text \<open>
  \<open>Router.Exec\<close>: \<open>PING\<close> and commands without a key run on the local database, \<open>DEL\<close>
  goes through \<open>execDel\<close>, and every other command goes to the owner of its first key.
\<close>

definition Router_Exec :: "cluster_env \<Rightarrow> Router \<Rightarrow> nat list \<Rightarrow> bytes list \<Rightarrow> reply" where
  "Router_Exec env r order cmd =
     (if cmd = [] then MakeErrReply ''ERR empty command''
      else
        (let name = ToLower (str (cmd ! 0))
         in if name = ''ping'' then localDB_Exec env cmd
            else if name = ''del'' then execDel env r order cmd
            else if length cmd < 2 then localDB_Exec env cmd
            else
              (let target = NodeForKey env (ring r) (str (cmd ! 1))
               in if target = [] \<or> target = localAddr r then localDB_Exec env cmd
                  else
                    (case peerDo env r target cmd of
                       Inl e \<Rightarrow> MakeErrReply (''ERR cluster forward failed: '' @ e)
                     | Inr reply \<Rightarrow> reply))))"

section \<open>Invariants of the caches and of the database\<close>

text \<open>The size that \<open>Add\<close> and \<open>removeEntry\<close> count for an entry: key and value.\<close>

definition entry_size :: "string \<times> DataEntity \<Rightarrow> int" where
  "entry_size p = int (length (fst p)) + Len (snd p)"

definition evicted_of :: "(string \<times> DataEntity) list \<Rightarrow> removal list" where
  "evicted_of xs = map (\<lambda>p. (fst p, snd p, RemoveReasonEvicted)) xs"

text \<open>The LRU cache cut down to its \<open>n\<close> most recent entries, the others taken off \<open>nbytes\<close>.\<close>

definition lru_cut :: "nat \<Rightarrow> Cache \<Rightarrow> Cache" where
  "lru_cut n c = c\<lparr>ll := take n (ll c), nbytes := nbytes c - sum_list (map entry_size (drop n (ll c)))\<rparr>"

text \<open>The entry list after the first part of \<open>Add\<close>, before the eviction loop.\<close>

definition lru_put :: "Cache \<Rightarrow> string \<Rightarrow> DataEntity \<Rightarrow> Cache" where
  "lru_put c key val =
     (case map_of (ll c) key of
          Some old \<Rightarrow>
            c\<lparr>ll := (key, val) # filter (\<lambda>p. fst p \<noteq> key) (ll c),
              nbytes := nbytes c + (Len val - Len old)\<rparr>
        | None \<Rightarrow>
            c\<lparr>ll := (key, val) # ll c,
              nbytes := nbytes c + (int (length key) + Len val)\<rparr>)"

text \<open>The recency list has one element for each key, as the map of the code has.\<close>

definition lru_wf :: "Cache \<Rightarrow> bool" where
  "lru_wf c = distinct (map fst (ll c))"

text \<open>The size counted for an entry of the LFU cache.\<close>

definition item_size :: "string \<times> DataEntity \<times> int \<Rightarrow> int" where
  "item_size p = int (length (fst p)) + Len (fst (snd p))"

text \<open>
  The consistency of the two maps of the LFU cache, on the maps themselves: \<open>I\<close> from
  a key to its value and frequency, \<open>B\<close> from a frequency to its bucket.
\<close>

definition wfm :: "(string \<rightharpoonup> DataEntity \<times> int) \<Rightarrow> (int \<rightharpoonup> string list) \<Rightarrow> bool" where
  "wfm I B =
     ((\<forall>k v f. I k = Some (v, f) \<longrightarrow> 1 \<le> f \<and> (\<exists>b. B f = Some b \<and> k \<in> set b)) \<and>
      (\<forall>f b. B f = Some b \<longrightarrow> distinct b \<and> (\<forall>k \<in> set b. \<exists>v. I k = Some (v, f))))"

text \<open>The LFU cache after the first part of \<open>Add\<close>, before the eviction loop.\<close>

definition lfu_put :: "LFUCache \<Rightarrow> string \<Rightarrow> DataEntity \<Rightarrow> LFUCache" where
  "lfu_put c key val =
     (case map_of (items c) key of
          Some (old, freq) \<Rightarrow>
            increment
              (c\<lparr>lfu_nbytes := lfu_nbytes c + (Len val - Len old),
                 items := AList.update key (val, freq) (items c)\<rparr>)
              key
        | None \<Rightarrow>
            c\<lparr>buckets := bucket_PushFront 1 key (buckets c),
              items := AList.update key (val, 1) (items c),
              lfu_nbytes := lfu_nbytes c + (int (length key) + Len val),
              minFreq := 1\<rparr>)"

text \<open>
  The LFU structure is consistent: one entry for each key, one bucket for each
  frequency, every entry in the bucket of its frequency (which is at least 1), and
  every member of a bucket an entry of that frequency, once.
\<close>

definition lfu_wf :: "LFUCache \<Rightarrow> bool" where
  "lfu_wf c =
     (distinct (map fst (items c)) \<and> distinct (map fst (buckets c)) \<and>
      wfm (map_of (items c)) (map_of (buckets c)))"

fun cache_wf :: "EvictionCache \<Rightarrow> bool" where
  "cache_wf (LRU c) = lru_wf c"
| "cache_wf (LFU c) = lfu_wf c"

text \<open>
  The byte budget is positive and the tracked total within it, or the budget is 0
  (no limit).
\<close>

definition cache_budget :: "EvictionCache \<Rightarrow> bool" where
  "cache_budget c =
     (cache_maxBytes c = 0 \<or> (0 < cache_maxBytes c \<and> cache_nbytes c \<le> cache_maxBytes c))"

text \<open>The size change that the first part of \<open>Add\<close> books for a key and a value.\<close>

definition add_delta :: "EvictionCache \<Rightarrow> string \<Rightarrow> DataEntity \<Rightarrow> int" where
  "add_delta c k v =
     (case cache_Peek c k of Some old \<Rightarrow> Len v - Len old | None \<Rightarrow> int (length k) + Len v)"

definition db_inv :: "StandaloneDB \<Rightarrow> bool" where
  "db_inv db = (cache_wf (cache db) \<and> cache_budget (cache db))"

text \<open>
  What a request has done so far, from the state \<open>db0\<close> it started in: the invariant
  holds, the removal callback was called for \<open>evs\<close>, the evicted keys recorded are those
  of the calls with reason evicted, in order, and the append log is still on or still off.
\<close>

definition evicted_keys :: "removal list \<Rightarrow> string list" where
  "evicted_keys evs = map fst (filter (\<lambda>e. snd (snd e) = RemoveReasonEvicted) evs)"

definition trace_ext :: "StandaloneDB \<Rightarrow> StandaloneDB \<Rightarrow> bool" where
  "trace_ext db0 db =
     (\<exists>evs. callbacks db = callbacks db0 @ evs \<and>
            evictedKeys db = evictedKeys db0 @ evicted_keys evs)"

definition ok :: "StandaloneDB \<Rightarrow> StandaloneDB \<Rightarrow> bool" where
  "ok db0 db =
     (db_inv db \<and> trace_ext db0 db \<and> (aofHandler db = None \<longleftrightarrow> aofHandler db0 = None))"

section \<open>Notions of the specification and example states\<close>

text \<open>A start or stop index of \<open>LRANGE\<close>, counted from the end when negative.\<close>

definition resolve_index :: "int \<Rightarrow> int \<Rightarrow> int" where
  "resolve_index sz i = (if i < 0 then sz + i else i)"

text \<open>A database without append log that holds the list \<open>l = [a]\<close>.\<close>

definition ex_list_db :: StandaloneDB where
  "ex_list_db =
     (NewStandaloneDBWithConfig False [] 0 ''lru'')
       \<lparr>cache := LRU \<lparr>maxBytes = 104857600, nbytes = 18, ll = [(''l'', ListData [Some ''a''])]\<rparr>\<rparr>"

text \<open>File operations that all succeed.\<close>

definition ex_io :: io_env where
  "ex_io = \<lparr>rdb_save_err = None, start_rewrite_err = None, rewrite_write_err = None,
            finish_rewrite_err = None\<rparr>"

text \<open>
  A database with append log and a budget of 20 bytes, after \<open>SET k1 0123456789\<close>, and
  the command \<open>SET k2 abcdefghij\<close>, which does not fit beside \<open>k1\<close>.
\<close>

definition ex_evict_db :: StandaloneDB where
  "ex_evict_db =
     (NewStandaloneDBWithConfig True [] 20 ''lru'')
       \<lparr>cache := LRU \<lparr>maxBytes = 20, nbytes = 12, ll = [(''k1'', StringData (Some ''0123456789''))]\<rparr>,
        aofHandler := Some [[Some ''SET'', Some ''k1'', Some ''0123456789'']]\<rparr>"

definition ex_set_k2 :: "bytes list" where
  "ex_set_k2 = [Some ''SET'', Some ''k2'', Some ''abcdefghij'']"

text \<open>
  Databases that hold one container of one element each, with an expiration at one
  second: the list \<open>l = [a]\<close>, the hash \<open>h = {f: v}\<close> and the set \<open>s = {m}\<close>.
\<close>

definition ex_ttl_list_db :: StandaloneDB where
  "ex_ttl_list_db = ex_list_db\<lparr>ttlMap := [(''l'', 1000000000)]\<rparr>"

definition ex_hash_db :: StandaloneDB where
  "ex_hash_db =
     (NewStandaloneDBWithConfig False [] 0 ''lru'')
       \<lparr>cache := LRU \<lparr>maxBytes = 104857600, nbytes = 19,
                        ll = [(''h'', HashData [(''f'', Some ''v'')])]\<rparr>,
        ttlMap := [(''h'', 1000000000)]\<rparr>"

definition ex_set_db :: StandaloneDB where
  "ex_set_db =
     (NewStandaloneDBWithConfig False [] 0 ''lru'')
       \<lparr>cache := LRU \<lparr>maxBytes = 104857600, nbytes = 18, ll = [(''s'', SetData [''m''])]\<rparr>,
        ttlMap := [(''s'', 1000000000)]\<rparr>"

text \<open>
  A database that holds the string \<open>k = v\<close> with an expiration at 1 ns, which is past
  due at 10 ns.
\<close>

definition ex_expired_db :: StandaloneDB where
  "ex_expired_db =
     (NewStandaloneDBWithConfig False [] 0 ''lru'')
       \<lparr>cache := LRU \<lparr>maxBytes = 104857600, nbytes = 2, ll = [(''k'', StringData (Some ''v''))]\<rparr>,
        ttlMap := [(''k'', 1)]\<rparr>"

text \<open>
  The databases after \<open>LPUSH l a\<close> and then \<open>LPUSH l b\<close> on a new database, with the
  LRU cache (the first of them is \<open>ex_list_db\<close>) and with the LFU cache.
\<close>

definition ex_list2_db :: StandaloneDB where
  "ex_list2_db =
     (NewStandaloneDBWithConfig False [] 0 ''lru'')
       \<lparr>cache := LRU \<lparr>maxBytes = 104857600, nbytes = 18,
                        ll = [(''l'', ListData [Some ''b'', Some ''a''])]\<rparr>\<rparr>"

definition ex_lfu_list_db :: StandaloneDB where
  "ex_lfu_list_db =
     (NewStandaloneDBWithConfig False [] 0 ''lfu'')
       \<lparr>cache := LFU \<lparr>lfu_maxBytes = 104857600, lfu_nbytes = 18,
                        items = [(''l'', ListData [Some ''a''], 1)],
                        buckets = [(1, [''l''])], minFreq = 1\<rparr>\<rparr>"

definition ex_lfu_list2_db :: StandaloneDB where
  "ex_lfu_list2_db =
     (NewStandaloneDBWithConfig False [] 0 ''lfu'')
       \<lparr>cache := LFU \<lparr>lfu_maxBytes = 104857600, lfu_nbytes = 18,
                        items = [(''l'', ListData [Some ''b'', Some ''a''], 3)],
                        buckets = [(3, [''l''])], minFreq = 3\<rparr>\<rparr>"

text \<open>
  A cluster of two nodes for the examples: the checksum of a string is taken to be its
  length, the ring gives strings of length 1 to \<open>n1\<close> (the local node) and the others to
  \<open>n2\<close>; the local database answers \<open>DEL\<close> with the number of its keys and the peer with
  1. In \<open>ex_env_down\<close> the peer cannot be reached.
\<close>

definition ex_env :: cluster_env where
  "ex_env = \<lparr>ChecksumIEEE = (\<lambda>s. of_nat (length s)),
             localDB_Exec = (\<lambda>cmd. IntReply (of_nat (length cmd - 1))),
             peer_Do = (\<lambda>addr cmd. Inr (IntReply 1))\<rparr>"

definition ex_env_down :: cluster_env where
  "ex_env_down = ex_env\<lparr>peer_Do := (\<lambda>addr cmd. Inl ''timeout'')\<rparr>"

definition ex_router :: Router where
  "ex_router =
     \<lparr>localAddr = ''n1'',
      ring = \<lparr>vnodes = 1, nodes = [''n1'', ''n2''], sortedHashes = [1, 2],
              hashToNode = [(1, ''n1''), (2, ''n2'')]\<rparr>\<rparr>"

definition ex_del :: "bytes list" where
  "ex_del = [Some ''DEL'', Some ''a'', Some ''bb'', Some ''c'']"

section \<open>Properties\<close>

subsection \<open>Decimal conversions and the RESP round trip\<close>

lemma digit_char_is_digit: "d < 10 \<Longrightarrow> is_digit (digit_char d)"
  by (simp add: is_digit_def digit_char_def)

lemma digit_val_digit_char: "d < 10 \<Longrightarrow> digit_val (digit_char d) = d"
  by (simp add: digit_val_def digit_char_def)

lemma digits10_all_digits: "c \<in> set (digits10 n) \<Longrightarrow> is_digit c"
proof (induction n arbitrary: c rule: digits10.induct)
  case (1 n)
  show ?case
  proof (cases "n < 10")
    case True
    with "1.prems" show ?thesis
      by (simp add: digits10.simps [of n] digit_char_is_digit)
  next
    case False
    with "1.prems" "1.IH" show ?thesis
      by (auto simp: digits10.simps [of n] digit_char_is_digit)
  qed
qed

lemma digits10_nonempty: "digits10 n \<noteq> []"
  by (subst digits10.simps) simp

lemma parse_digits_append:
  "parse_digits acc (xs @ ys) =
     (case parse_digits acc xs of None \<Rightarrow> None | Some a \<Rightarrow> parse_digits a ys)"
  by (induction xs arbitrary: acc) auto

lemma parse_digits_digits10: "parse_digits 0 (digits10 n) = Some n"
proof (induction n rule: digits10.induct)
  case (1 n)
  show ?case
  proof (cases "n < 10")
    case True
    then show ?thesis
      by (simp add: digits10.simps [of n] digit_char_is_digit digit_val_digit_char)
  next
    case False
    with "1.IH" show ?thesis
      by (simp add: digits10.simps [of n] parse_digits_append digit_char_is_digit
          digit_val_digit_char)
  qed
qed

lemma ParseUint_digits10: "ParseUint (digits10 n) = Some n"
  by (simp add: ParseUint_def digits10_nonempty parse_digits_digits10)

lemma is_digit_not_sign: "is_digit c \<Longrightarrow> c \<noteq> CHR ''-'' \<and> c \<noteq> CHR ''+'' \<and> c \<noteq> LF"
  by (auto simp: is_digit_def)

lemma hd_digits10: "\<exists>c cs. digits10 n = c # cs \<and> is_digit c"
proof -
  obtain c cs where e: "digits10 n = c # cs"
    using digits10_nonempty [of n] by (cases "digits10 n") auto
  then have "c \<in> set (digits10 n)" by simp
  then show ?thesis using e digits10_all_digits by blast
qed

lemma Atoi_Itoa:
  assumes "- (2 ^ 63) \<le> i" "i < 2 ^ 63"
  shows "Atoi (Itoa i) = Some i"
proof (cases "i < 0")
  case True
  have "nat (- i) \<le> 2 ^ 63" using assms True by (simp add: nat_le_iff)
  then show ?thesis
    using True by (simp add: Atoi_def Itoa_def ParseUint_digits10)
next
  case False
  obtain c cs where e: "digits10 (nat i) = c # cs" and d: "is_digit c"
    using hd_digits10 by blast
  have ns: "c \<noteq> CHR ''-''" "c \<noteq> CHR ''+''" using is_digit_not_sign [OF d] by auto
  have "ParseUint (c # cs) = Some (nat i)" using ParseUint_digits10 [of "nat i"] e by simp
  moreover have "\<not> (2 ^ 63 \<le> nat i)" using assms False by (simp add: le_nat_iff)
  ultimately show ?thesis
    using False e ns by (simp add: Atoi_def Itoa_def)
qed

lemma ParseInt_FormatInt: "ParseInt (FormatInt w) = Some w"
proof -
  have "- (2 ^ 63) \<le> sint w" "sint w < 2 ^ 63"
    using sint_ge [of w] sint_lt [of w] by simp_all
  then show ?thesis
    by (simp add: ParseInt_def FormatInt_def Atoi_Itoa)
qed

lemma Itoa_no_LF: "LF \<notin> set (Itoa i)"
  using digits10_all_digits is_digit_not_sign by (auto simp: Itoa_def)

lemma readLine_CRLF:
  assumes "LF \<notin> set s"
  shows "readLine (s @ CRLF @ rest) = Inr (s, rest)"
proof -
  have tw: "takeWhile (\<lambda>c. c \<noteq> LF) (s @ CR # LF # rest) = s @ [CR]"
    using assms by (induction s) auto
  show ?thesis
    using assms by (simp add: readLine_def CRLF_def tw nth_append)
qed


lemma readLine_header:
  "readLine (c # Itoa i @ CRLF @ rest) = (if c = LF then readLine (c # Itoa i @ CRLF @ rest) else Inr (c # Itoa i, rest))"
  using readLine_CRLF [of "c # Itoa i" rest] Itoa_no_LF [of i] by auto

lemma parseBulk_bulk_bytes:
  assumes "wf_bulk arg"
  shows "\<exists>line rest'. readLine (bulk_bytes arg @ rest) = Inr (CHR ''$'' # line, rest') \<and>
           parseBulk (CHR ''$'' # line) rest' = Inr (arg, rest)"
proof (cases arg)
  case None
  have "readLine (''$-1'' @ CRLF @ rest) = Inr (''$-1'', rest)"
    by (rule readLine_CRLF) simp
  moreover have "Atoi ''-1'' = Some (-1)"
    by (simp add: Atoi_def ParseUint_def is_digit_def digit_val_def)
  ultimately show ?thesis
    using None by (simp add: bulk_bytes_def parseBulk_def)
next
  case (Some a)
  let ?n = "int (length a)"
  have b: "?n + 2 < 2 ^ 63" using assms Some by (simp add: wf_bulk_def)
  have rl: "readLine (CHR ''$'' # Itoa ?n @ CRLF @ (a @ CRLF @ rest)) = Inr (CHR ''$'' # Itoa ?n, a @ CRLF @ rest)"
    using readLine_header [of "CHR ''$''" ?n "a @ CRLF @ rest"] by simp
  have at: "Atoi (Itoa ?n) = Some ?n"
    using b by (intro Atoi_Itoa) simp_all
  have rf: "ReadFull (Suc (Suc (length a))) (a @ CRLF @ rest) = Inr (a @ CRLF, rest)"
    by (simp add: ReadFull_def CRLF_def)
  have ix: "(a @ CRLF) ! length a = CR" "(a @ CRLF) ! Suc (length a) = LF"
    by (simp_all add: CRLF_def nth_append)
  have "parseBulk (CHR ''$'' # Itoa ?n) (a @ CRLF @ rest) = Inr (Some a, rest)"
    using b by (simp add: parseBulk_def at rf ix nat_add_distrib)
  then show ?thesis
    using Some rl by (simp add: bulk_bytes_def)
qed

lemma parseElems_roundtrip:
  "list_all wf_bulk args \<Longrightarrow>
   parseElems (length args) (concat (map bulk_bytes args) @ rest) = Inr (args, rest)"
proof (induction args)
  case Nil
  then show ?case by simp
next
  case (Cons arg args)
  then have wf: "wf_bulk arg" and IH: "parseElems (length args) (concat (map bulk_bytes args) @ rest) = Inr (args, rest)"
    by simp_all
  obtain line rest' where
    rl: "readLine (bulk_bytes arg @ (concat (map bulk_bytes args) @ rest)) = Inr (CHR ''$'' # line, rest')"
    and pb: "parseBulk (CHR ''$'' # line) rest' = Inr (arg, concat (map bulk_bytes args) @ rest)"
    using parseBulk_bulk_bytes [OF wf] by blast
  show ?case
    using rl pb IH by simp
qed

text \<open>
  Claim C9. For every well-formed reply (a status or an error without a line feed, an
  integer, a nil or non-nil bulk, an empty or non-empty array of bulks), serialising the
  reply succeeds, and reading one reply from the bytes, followed by any further input,
  gives the reply back and leaves the further input unread.
\<close>

theorem C9_parse_serialize_roundtrip:
  assumes "wf_reply r"
  shows "\<exists>bs. ToBytes r = Some bs \<and> ReadReply (bs @ rest) = Inr (r, rest)"
proof (cases r)
  case (StatusReply s)
  then have "LF \<notin> set (CHR ''+'' # s)" using assms by simp
  from readLine_CRLF [OF this, of rest] show ?thesis
    using StatusReply by (simp add: ReadReply_def parseLine_def MakeStatusReply_def)
next
  case (ErrorReply s)
  then have "LF \<notin> set (CHR ''-'' # s)" using assms by simp
  from readLine_CRLF [OF this, of rest] show ?thesis
    using ErrorReply by (simp add: ReadReply_def parseLine_def MakeErrReply_def)
next
  case (IntReply c)
  have "LF \<notin> set (CHR '':'' # FormatInt c)"
    using Itoa_no_LF by (simp add: FormatInt_def)
  from readLine_CRLF [OF this, of rest] show ?thesis
    using IntReply by (simp add: ReadReply_def parseLine_def MakeIntReply_def ParseInt_FormatInt)
next
  case (BulkReply arg)
  then have "wf_bulk arg" using assms by simp
  from parseBulk_bulk_bytes [OF this, of rest] show ?thesis
    using BulkReply by (auto simp: ReadReply_def parseLine_def MakeBulkReply_def)
next
  case (MultiBulkReply argso)
  then obtain args where a: "argso = Some args" using assms by (cases argso) auto
  let ?n = "int (length args)"
  have b: "?n < 2 ^ 63" and wf: "list_all wf_bulk args" using assms MultiBulkReply a by simp_all
  have rl: "readLine (CHR ''*'' # Itoa ?n @ CRLF @ (concat (map bulk_bytes args) @ rest))
              = Inr (CHR ''*'' # Itoa ?n, concat (map bulk_bytes args) @ rest)"
    using readLine_header [of "CHR ''*''" ?n] by simp
  have at: "Atoi (Itoa ?n) = Some ?n"
    using b by (intro Atoi_Itoa) simp_all
  show ?thesis
    using MultiBulkReply a rl at parseElems_roundtrip [OF wf, of rest]
    by (simp add: ReadReply_def parseLine_def parseArray_def MakeMultiBulkReply_def)
next
  case NilMultiBulk
  then show ?thesis using assms by simp
next
  case NoReply
  then show ?thesis using assms by simp
qed


theorem C9_parse_serialize_roundtrip_witness:
  "wf_reply (MultiBulkReply (Some [Some ''GET'', None])) \<and>
   (\<exists>bs. ToBytes (MultiBulkReply (Some [Some ''GET'', None])) = Some bs \<and>
         ReadReply (bs @ ''+OK'') = Inr (MultiBulkReply (Some [Some ''GET'', None]), ''+OK''))"
proof -
  have wf: "wf_reply (MultiBulkReply (Some [Some ''GET'', None]))"
    by (simp add: wf_bulk_def)
  show ?thesis
    using wf C9_parse_serialize_roundtrip [OF wf, of "''+OK''"] by simp
qed

subsection \<open>LRANGE\<close>

lemma past_due_db_Get [simp]: "past_due now (snd (db_Get db key)) key' = past_due now db key'"
  by (simp add: past_due_def db_Get_def)

lemma take_drop_nths:
  "m + n \<le> length xs \<Longrightarrow> take n (drop m xs) = map (\<lambda>i. xs ! i) [m..<m + n]"
  by (rule nth_equalityI) auto

text \<open>
  Claim C8, as the code has it. For a live key that holds a list \<open>l\<close> and for integer
  arguments \<open>start\<close> and \<open>stop\<close>, \<open>LRANGE\<close> counts a negative index from the end, raises
  the start to 0 and lowers the stop to \<open>size - 1\<close>; when the start is then above the
  stop, the reply is the multi bulk with nil \<open>Args\<close>, whose bytes are \<open>*-1\r\n\<close> (the
  null array); otherwise it is the array of the elements from start to stop.
\<close>

theorem C8_lrange_clamps:
  assumes args: "args = [c, k, a2, a3]"
    and start: "Atoi (str a2) = Some start" and stop: "Atoi (str a3) = Some stop"
    and val: "fst (db_Get db (str k)) = Some (ListData l)"
    and live: "\<not> past_due now db (str k)"
    and s: "s = max 0 (resolve_index (int (length l)) start)"
    and e: "e = min (int (length l) - 1) (resolve_index (int (length l)) stop)"
  shows "fst (lrange now db args) =
           (if s > e then MultiBulkReply None
            else MultiBulkReply (Some (map (\<lambda>i. l ! i) [nat s..<nat e + 1]))) \<and>
         ToBytes (MultiBulkReply None) = Some (''*-1'' @ CRLF)"
proof -
  have r: "fst (lrange now db args) = lrange_reply l start stop"
    using args start stop val live
    by (simp add: lrange_def Let_def case_prod_unfold)
  have s': "s = (let st = (if start < 0 then int (length l) + start else start) in if st < 0 then 0 else st)"
    using s by (simp add: resolve_index_def Let_def max_def)
  have e': "e = (let sp = (if stop < 0 then int (length l) + stop else stop) in if sp \<ge> int (length l) then int (length l) - 1 else sp)"
    using e by (simp add: resolve_index_def Let_def min_def)
  have "fst (lrange now db args) =
           (if s > e then MultiBulkReply None
            else MultiBulkReply (Some (map (\<lambda>i. l ! i) [nat s..<nat e + 1])))"
  proof (cases "s > e")
    case True
    then show ?thesis
      using r s' e' by (simp add: lrange_reply_def Let_def MakeMultiBulkReply_def)
  next
    case False
    have s0: "0 \<le> s" using s by simp
    have el: "e < int (length l)" using e by simp
    have "nat s + nat (e - s + 1) \<le> length l" using False s0 el by linarith
    from take_drop_nths [OF this]
    have "take (nat (e - s + 1)) (drop (nat s) l) = map (\<lambda>i. l ! i) [nat s..<nat e + 1]"
      using False s0 by (simp add: nat_add_distrib nat_diff_distrib)
    then show ?thesis
      using False r s' e' by (simp add: lrange_reply_def Let_def MakeMultiBulkReply_def)
  qed
  then show ?thesis by simp
qed

lemma Atoi_examples: "Atoi ''1'' = Some 1" "Atoi ''0'' = Some 0" "Atoi ''-1'' = Some (- 1)"
  by (simp_all add: Atoi_def ParseUint_def is_digit_def digit_val_def)

lemma ex_list_db_Get: "fst (db_Get ex_list_db ''l'') = Some (ListData [Some ''a''])"
  by (simp add: ex_list_db_def db_Get_def lru_Get_def)

lemma ex_list_db_live: "\<not> past_due 0 ex_list_db ''l''"
  by (simp add: ex_list_db_def past_due_def NewStandaloneDBWithConfig_def)

theorem C8_lrange_clamps_witness:
  "fst (lrange 0 ex_list_db [Some ''LRANGE'', Some ''l'', Some ''0'', Some ''-1'']) =
     MultiBulkReply (Some [Some ''a'']) \<and>
   ToBytes (MultiBulkReply None) = Some (''*-1'' @ CRLF)"
  using C8_lrange_clamps [of "[Some ''LRANGE'', Some ''l'', Some ''0'', Some ''-1'']"
      "Some ''LRANGE''" "Some ''l''" "Some ''0''" "Some ''-1''" 0 "- 1" ex_list_db "[Some ''a'']" 0 0 0]
    ex_list_db_Get ex_list_db_live
  by (simp add: str_def Atoi_examples resolve_index_def)

text \<open>
  The claim as stated fails: \<open>LRANGE l 1 0\<close> on the list \<open>[a]\<close> has its start above its
  stop, and the bytes of the reply are \<open>*-1\r\n\<close>, not \<open>*0\r\n\<close>.
\<close>

theorem C8_lrange_empty_counterexample:
  "ToBytes (fst (lrange 0 ex_list_db [Some ''LRANGE'', Some ''l'', Some ''1'', Some ''0''])) =
     Some (''*-1'' @ CRLF) \<and>
   ToBytes (fst (lrange 0 ex_list_db [Some ''LRANGE'', Some ''l'', Some ''1'', Some ''0''])) \<noteq>
     Some (''*0'' @ CRLF)"
proof -
  have "fst (lrange 0 ex_list_db [Some ''LRANGE'', Some ''l'', Some ''1'', Some ''0'']) = MultiBulkReply None"
    using ex_list_db_Get ex_list_db_live
    by (simp add: lrange_def str_def Atoi_examples Let_def case_prod_unfold lrange_reply_def
        MakeMultiBulkReply_def)
  then show ?thesis by (simp add: CRLF_def)
qed

subsection \<open>The LRU cache\<close>

lemma Len_nonneg: "0 \<le> Len v"
  by (cases v) (auto intro!: sum_list_nonneg)

lemma lru_total_alt: "lru_total c = sum_list (map entry_size (ll c))"
  by (simp add: lru_total_def entry_size_def [abs_def] case_prod_unfold)

lemma entry_size_nonneg: "0 \<le> entry_size p"
  using Len_nonneg by (simp add: entry_size_def)

lemma sum_entry_size_nonneg: "0 \<le> sum_list (map entry_size xs)"
  by (auto intro!: sum_list_nonneg simp: entry_size_nonneg)

lemma filter_last_distinct:
  "distinct (map fst xs) \<Longrightarrow> xs \<noteq> [] \<Longrightarrow> filter (\<lambda>p. fst p \<noteq> fst (last xs)) xs = butlast xs"
proof (induction xs)
  case Nil
  then show ?case by simp
next
  case (Cons a xs)
  show ?case
  proof (cases "xs = []")
    case True
    then show ?thesis by simp
  next
    case False
    have "fst a \<noteq> fst (last xs)"
      using Cons.prems False by (metis distinct.simps(2) last_in_set image_eqI list.simps(9) set_map)
    then show ?thesis using Cons False by simp
  qed
qed

lemma map_of_last_distinct:
  "distinct (map fst xs) \<Longrightarrow> xs \<noteq> [] \<Longrightarrow> map_of xs (fst (last xs)) = Some (snd (last xs))"
  by (simp add: map_of_eq_Some_iff [THEN iffD2])

lemma RemoveOldest_nonempty:
  assumes "distinct (map fst (ll c))" "ll c \<noteq> []"
  shows "RemoveOldest c =
           (c\<lparr>ll := butlast (ll c), nbytes := nbytes c - entry_size (last (ll c))\<rparr>,
            [(fst (last (ll c)), snd (last (ll c)), RemoveReasonEvicted)])"
  using assms
  by (cases "ll c")
     (simp_all add: RemoveOldest_def removeEntry_def map_of_last_distinct filter_last_distinct
       entry_size_def del: map_of.simps filter.simps last.simps butlast.simps)

lemma sum_list_butlast_last:
  "xs \<noteq> [] \<Longrightarrow> sum_list (map f xs) = sum_list (map f (butlast xs)) + (f (last xs) :: int)"
  by (induction xs) auto

lemma drop_butlast_last:
  "n < length xs \<Longrightarrow> drop n xs = drop n (butlast xs) @ [last xs]"
proof -
  assume a: "n < length xs"
  then have ne: "xs \<noteq> []" by auto
  have "drop n (butlast xs @ [last xs]) = drop n (butlast xs) @ [last xs]"
    using a by simp
  then show ?thesis using ne by simp
qed

lemma lru_evict_stop:
  "\<not> (maxBytes c \<noteq> 0 \<and> maxBytes c < nbytes c) \<Longrightarrow> lru_evict c evs = Some (c, evs)"
proof -
  assume "\<not> (maxBytes c \<noteq> 0 \<and> maxBytes c < nbytes c)"
  then have nc: "(maxBytes c \<noteq> 0 \<and> maxBytes c < nbytes c) = False" by simp
  show ?thesis by (subst lru_evict.simps) (simp only: nc if_False)
qed

lemma lru_evict_step:
  "maxBytes c \<noteq> 0 \<and> maxBytes c < nbytes c \<Longrightarrow>
   lru_evict c evs = lru_evict (fst (RemoveOldest c)) (evs @ snd (RemoveOldest c))"
proof -
  assume "maxBytes c \<noteq> 0 \<and> maxBytes c < nbytes c"
  then have yc: "(maxBytes c \<noteq> 0 \<and> maxBytes c < nbytes c) = True" by simp
  show ?thesis by (subst lru_evict.simps) (simp only: yc if_True)
qed

lemma lru_cut_all: "lru_cut (length (ll c)) c = c"
  by (simp add: lru_cut_def)

lemma lru_cut_step:
  assumes "n < length (ll c)"
  shows "lru_cut n (c\<lparr>ll := butlast (ll c), nbytes := nbytes c - entry_size (last (ll c))\<rparr>) = lru_cut n c"
proof -
  have "sum_list (map entry_size (drop n (ll c))) =
        sum_list (map entry_size (drop n (butlast (ll c)))) + entry_size (last (ll c))"
    using drop_butlast_last [OF assms] by simp
  moreover have "take n (butlast (ll c)) = take n (ll c)"
    using assms by (simp add: take_butlast)
  ultimately show ?thesis by (simp add: lru_cut_def)
qed

lemma lru_evict_result:
  assumes "distinct (map fst (ll c))"
    and "nbytes c - lru_total c \<le> maxBytes c"
  shows "\<exists>n \<le> length (ll c).
           lru_evict c evs = Some (lru_cut n c, evs @ evicted_of (rev (drop n (ll c)))) \<and>
           (maxBytes c = 0 \<or> nbytes (lru_cut n c) \<le> maxBytes c) \<and>
           (\<not> (maxBytes c \<noteq> 0 \<and> maxBytes c < nbytes c) \<longrightarrow> n = length (ll c))"
  using assms
proof (induction "length (ll c)" arbitrary: c evs)
  case 0
  then have e: "ll c = []" by simp
  then have nc: "\<not> (maxBytes c \<noteq> 0 \<and> maxBytes c < nbytes c)"
    using "0.prems" by (auto simp: lru_total_alt)
  show ?case
    using e nc lru_evict_stop [OF nc, of evs]
    by (auto simp: evicted_of_def lru_cut_def)
next
  case (Suc m)
  show ?case
  proof (cases "maxBytes c \<noteq> 0 \<and> maxBytes c < nbytes c")
    case False
    show ?thesis
      using False lru_evict_stop [OF False, of evs]
      by (intro exI [of _ "length (ll c)"]) (auto simp: evicted_of_def lru_cut_all)
  next
    case True
    have ne: "ll c \<noteq> []" using Suc.hyps(2) by auto
    define c1 where "c1 = c\<lparr>ll := butlast (ll c), nbytes := nbytes c - entry_size (last (ll c))\<rparr>"
    define e1 where "e1 = [(fst (last (ll c)), snd (last (ll c)), RemoveReasonEvicted)]"
    have ro: "RemoveOldest c = (c1, e1)"
      using RemoveOldest_nonempty [OF Suc.prems(1) ne] by (simp add: c1_def e1_def)
    have step: "lru_evict c evs = lru_evict c1 (evs @ e1)"
      using lru_evict_step [OF True, of evs] ro by simp
    have ll1: "ll c1 = butlast (ll c)" and mb1: "maxBytes c1 = maxBytes c"
      and nb1: "nbytes c1 = nbytes c - entry_size (last (ll c))"
      by (simp_all add: c1_def)
    have len: "m = length (ll c1)" using Suc.hyps(2) ll1 by simp
    have d1: "distinct (map fst (ll c1))"
      using Suc.prems(1) ll1 by (simp add: distinct_butlast map_butlast)
    have tot: "lru_total c = lru_total c1 + entry_size (last (ll c))"
      using ne ll1 sum_list_butlast_last [of "ll c" entry_size] by (simp add: lru_total_alt)
    have r1: "nbytes c1 - lru_total c1 \<le> maxBytes c1"
      using Suc.prems(2) tot nb1 mb1 by simp
    from Suc.hyps(1) [OF len d1 r1, of "evs @ e1"]
    obtain n where n: "n \<le> length (ll c1)"
      and ev: "lru_evict c1 (evs @ e1) = Some (lru_cut n c1, (evs @ e1) @ evicted_of (rev (drop n (ll c1))))"
      and bud: "maxBytes c1 = 0 \<or> nbytes (lru_cut n c1) \<le> maxBytes c1"
      by blast
    have nl: "n < length (ll c)" using n len Suc.hyps(2) by linarith
    have cut: "lru_cut n c1 = lru_cut n c"
      unfolding c1_def by (rule lru_cut_step [OF nl])
    have evs: "e1 @ evicted_of (rev (drop n (ll c1))) = evicted_of (rev (drop n (ll c)))"
      using drop_butlast_last [OF nl] ll1 by (simp add: evicted_of_def e1_def)
    have "lru_evict c evs = Some (lru_cut n c, evs @ evicted_of (rev (drop n (ll c))))"
      using step ev cut evs by simp
    moreover have "maxBytes c = 0 \<or> nbytes (lru_cut n c) \<le> maxBytes c"
      using bud cut mb1 by simp
    ultimately show ?thesis
      using nl True by (intro exI [of _ n]) simp
  qed
qed


lemma map_of_filter_neq: "map_of (filter (\<lambda>p. fst p \<noteq> k) xs) = (map_of xs)(k := None)"
  by (induction xs) auto

lemma distinct_filter_fst: "distinct (map fst xs) \<Longrightarrow> distinct (map fst (filter P xs))"
  by (simp add: distinct_map_filter)

lemma sum_filter_distinct:
  "distinct (map fst xs) \<Longrightarrow> map_of xs k = Some v \<Longrightarrow>
   sum_list (map entry_size xs) = sum_list (map entry_size (filter (\<lambda>p. fst p \<noteq> k) xs)) + entry_size (k, v)"
proof (induction xs)
  case Nil
  then show ?case by simp
next
  case (Cons a xs)
  show ?case
  proof (cases "fst a = k")
    case True
    then have "k \<notin> fst ` set xs" using Cons.prems(1) by auto
    then have "filter (\<lambda>p. fst p \<noteq> k) xs = xs"
      by (auto simp: filter_id_conv)
    moreover have "a = (k, v)" using True Cons.prems(2) by (cases a) auto
    ultimately show ?thesis using True by simp
  next
    case False
    then show ?thesis using Cons by (cases a) auto
  qed
qed

lemma map_of_take_distinct:
  assumes "distinct (map fst xs)"
  shows "map_of (take n xs) k = (if k \<in> fst ` set (drop n xs) then None else map_of xs k)"
proof -
  have d: "distinct (map fst (take n xs @ drop n xs))" using assms by simp
  have m: "map_of xs k = map_of (take n xs @ drop n xs) k" by simp
  show ?thesis
  proof (cases "k \<in> fst ` set (drop n xs)")
    case True
    then have "k \<notin> fst ` set (take n xs)"
      using d unfolding map_append distinct_append by auto
    then show ?thesis using True by (simp add: map_of_eq_None_iff)
  next
    case False
    then have "map_of (drop n xs) k = None" by (simp add: map_of_eq_None_iff)
    then show ?thesis using False m unfolding map_of_append
      by (auto simp: map_add_def split: option.splits)
  qed
qed

lemma lru_Add_put: "lru_Add c key val = lru_evict (lru_put c key val) []"
  by (simp add: lru_Add_def lru_put_def)

lemma lru_put_facts:
  assumes "lru_wf c"
  shows "lru_wf (lru_put c k v)"
    and "maxBytes (lru_put c k v) = maxBytes c"
    and "map_of (ll (lru_put c k v)) = (map_of (ll c))(k \<mapsto> v)"
    and "nbytes (lru_put c k v) - lru_total (lru_put c k v) = nbytes c - lru_total c"
proof -
  show "lru_wf (lru_put c k v)"
    using assms
    by (auto simp: lru_wf_def lru_put_def distinct_filter_fst map_of_eq_None_iff split: option.splits)
  show "maxBytes (lru_put c k v) = maxBytes c"
    by (simp add: lru_put_def split: option.splits)
  show "map_of (ll (lru_put c k v)) = (map_of (ll c))(k \<mapsto> v)"
    by (auto simp: lru_put_def map_of_filter_neq split: option.splits)
  show "nbytes (lru_put c k v) - lru_total (lru_put c k v) = nbytes c - lru_total c"
  proof (cases "map_of (ll c) k")
    case None
    then show ?thesis by (simp add: lru_put_def lru_total_alt entry_size_def)
  next
    case (Some old)
    from sum_filter_distinct [OF assms [unfolded lru_wf_def] Some]
    show ?thesis using Some by (simp add: lru_put_def lru_total_alt entry_size_def)
  qed
qed

lemma lru_total_nonneg: "0 \<le> lru_total c"
  by (simp add: lru_total_alt sum_entry_size_nonneg)

lemma lru_Add_result:
  assumes wf: "lru_wf c"
    and bud: "maxBytes c = 0 \<or> (0 < maxBytes c \<and> nbytes c \<le> maxBytes c)"
  shows "\<exists>c' evs. lru_Add c k v = Some (c', evs) \<and> lru_wf c' \<and> maxBytes c' = maxBytes c \<and>
           (maxBytes c' = 0 \<or> nbytes c' \<le> maxBytes c') \<and>
           (\<forall>e \<in> set evs. snd (snd e) = RemoveReasonEvicted) \<and>
           (\<forall>k'. map_of (ll c') k' =
                   (if k' \<in> fst ` set evs then None else ((map_of (ll c))(k \<mapsto> v)) k')) \<and>
           (maxBytes c = 0 \<or> nbytes (lru_put c k v) \<le> maxBytes c \<longrightarrow>
              evs = [] \<and> c' = lru_put c k v)"
proof -
  let ?c0 = "lru_put c k v"
  note pf = lru_put_facts [OF wf, of k v]
  have d0: "distinct (map fst (ll ?c0))" using pf(1) by (simp add: lru_wf_def)
  show ?thesis
  proof (cases "maxBytes c = 0")
    case True
    then have "lru_evict ?c0 [] = Some (?c0, [])"
      using pf(2) by (intro lru_evict_stop) simp
    then show ?thesis
      using True pf by (simp add: lru_Add_put)
  next
    case False
    then have b: "0 < maxBytes c" "nbytes c \<le> maxBytes c" using bud by auto
    have r0: "nbytes ?c0 - lru_total ?c0 \<le> maxBytes ?c0"
      using pf(2,4) b lru_total_nonneg [of c] by simp
    from lru_evict_result [OF d0 r0, of "[]"]
    obtain n where n: "n \<le> length (ll ?c0)"
      and ev: "lru_evict ?c0 [] = Some (lru_cut n ?c0, evicted_of (rev (drop n (ll ?c0))))"
      and nb: "maxBytes ?c0 = 0 \<or> nbytes (lru_cut n ?c0) \<le> maxBytes ?c0"
      and st: "\<not> (maxBytes ?c0 \<noteq> 0 \<and> maxBytes ?c0 < nbytes ?c0) \<longrightarrow> n = length (ll ?c0)"
      by auto
    have keys: "fst ` set (evicted_of (rev (drop n (ll ?c0)))) = fst ` set (drop n (ll ?c0))"
      by (force simp: evicted_of_def)
    have "lru_wf (lru_cut n ?c0)"
      using distinct_take [OF d0, of n] by (simp add: lru_wf_def lru_cut_def take_map)
    moreover have "maxBytes (lru_cut n ?c0) = maxBytes c"
      using pf(2) by (simp add: lru_cut_def)
    moreover have "\<forall>e \<in> set (evicted_of (rev (drop n (ll ?c0)))). snd (snd e) = RemoveReasonEvicted"
      by (auto simp: evicted_of_def)
    moreover have "\<forall>k'. map_of (ll (lru_cut n ?c0)) k' =
        (if k' \<in> fst ` set (evicted_of (rev (drop n (ll ?c0)))) then None
         else ((map_of (ll c))(k \<mapsto> v)) k')"
      unfolding keys using map_of_take_distinct [OF d0, of n] pf(3) by (simp add: lru_cut_def)
    moreover have "maxBytes c = 0 \<or> nbytes ?c0 \<le> maxBytes c \<longrightarrow>
        evicted_of (rev (drop n (ll ?c0))) = [] \<and> lru_cut n ?c0 = ?c0"
      using st pf(2) by (auto simp: evicted_of_def lru_cut_def)
    ultimately show ?thesis
      using ev nb pf(2) by (simp add: lru_Add_put)
  qed
qed

subsection \<open>The LFU cache\<close>

lemma wfm_parts:
  assumes w: "wfm I B"
  shows "\<And>f' b' k'. B f' = Some b' \<Longrightarrow> k' \<in> set b' \<Longrightarrow> \<exists>v'. I k' = Some (v', f')"
    and "\<And>k' v' f'. I k' = Some (v', f') \<Longrightarrow> 1 \<le> f' \<and> (\<exists>b'. B f' = Some b' \<and> k' \<in> set b')"
    and "\<And>f' b'. B f' = Some b' \<Longrightarrow> distinct b'"
  using w unfolding wfm_def by blast+

lemma wfm_remove_last:
  assumes w: "wfm I B" and ik: "I k = Some (v, f)" and bf: "B f = Some b" and e: "remove1 k b = []"
  shows "wfm (I(k := None)) (B(f := None))"
proof -
  note mem = wfm_parts(1) [OF w] and itm = wfm_parts(2) [OF w] and dist = wfm_parts(3) [OF w]
  from itm [OF ik] obtain b0 where "B f = Some b0" "k \<in> set b0" by blast
  then have kb: "k \<in> set b" using bf by simp
  have "set (remove1 k b) = set b - {k}" using dist [OF bf] by simp
  then have only: "set b = {k}" using e kb by auto
  show ?thesis
    unfolding wfm_def
  proof (intro conjI allI impI)
    fix k' v' f' assume a: "(I(k := None)) k' = Some (v', f')"
    have nk: "k' \<noteq> k" using a by (cases "k' = k") simp_all
    then have ik': "I k' = Some (v', f')" using a by simp
    from itm [OF ik'] obtain b' where b': "1 \<le> f'" "B f' = Some b'" "k' \<in> set b'" by blast
    have ff: "f' \<noteq> f"
    proof
      assume "f' = f"
      then have "b' = b" using b'(2) bf by simp
      then show False using b'(3) only nk by simp
    qed
    show "1 \<le> f'" using b'(1) .
    show "\<exists>ba. (B(f := None)) f' = Some ba \<and> k' \<in> set ba"
      using ff b'(2,3) by simp
  next
    fix f' b' assume a: "(B(f := None)) f' = Some b'"
    have ff: "f' \<noteq> f" using a by (cases "f' = f") simp_all
    then have bb: "B f' = Some b'" using a by simp
    show "distinct b'" using dist [OF bb] .
    show "\<forall>k'\<in>set b'. \<exists>v'. (I(k := None)) k' = Some (v', f')"
    proof
      fix k' assume "k' \<in> set b'"
      from mem [OF bb this] obtain v' where v': "I k' = Some (v', f')" by blast
      have "k' \<noteq> k" using v' ik ff by auto
      then show "\<exists>v'. (I(k := None)) k' = Some (v', f')" using v' by simp
    qed
  qed
qed

lemma wfm_remove_some:
  assumes w: "wfm I B" and ik: "I k = Some (v, f)" and bf: "B f = Some b"
  shows "wfm (I(k := None)) (B(f \<mapsto> remove1 k b))"
proof -
  note mem = wfm_parts(1) [OF w] and itm = wfm_parts(2) [OF w] and dist = wfm_parts(3) [OF w]
  have sr: "set (remove1 k b) = set b - {k}" using dist [OF bf] by simp
  show ?thesis
    unfolding wfm_def
  proof (intro conjI allI impI)
    fix k' v' f' assume a: "(I(k := None)) k' = Some (v', f')"
    have nk: "k' \<noteq> k" using a by (cases "k' = k") simp_all
    then have ik': "I k' = Some (v', f')" using a by simp
    from itm [OF ik'] obtain b' where b': "1 \<le> f'" "B f' = Some b'" "k' \<in> set b'" by blast
    show "1 \<le> f'" using b'(1) .
    show "\<exists>ba. (B(f \<mapsto> remove1 k b)) f' = Some ba \<and> k' \<in> set ba"
    proof (cases "f' = f")
      case True
      then have "b' = b" using b'(2) bf by simp
      then have "k' \<in> set (remove1 k b)" using sr b'(3) nk by simp
      then show ?thesis using True by simp
    next
      case False
      then show ?thesis using b'(2,3) by simp
    qed
  next
    fix f' b' assume a: "(B(f \<mapsto> remove1 k b)) f' = Some b'"
    show "distinct b'"
    proof (cases "f' = f")
      case True
      then have "b' = remove1 k b" using a by simp
      then show ?thesis using dist [OF bf] by simp
    next
      case False
      then show ?thesis using a dist [of f' b'] by simp
    qed
    show "\<forall>k'\<in>set b'. \<exists>v'. (I(k := None)) k' = Some (v', f')"
    proof
      fix k' assume kb': "k' \<in> set b'"
      show "\<exists>v'. (I(k := None)) k' = Some (v', f')"
      proof (cases "f' = f")
        case True
        then have "b' = remove1 k b" using a by simp
        then have m: "k' \<in> set b" and nk: "k' \<noteq> k" using kb' sr by auto
        from mem [OF bf m] obtain x where "I k' = Some (x, f)" by blast
        then show ?thesis using True nk by simp
      next
        case False
        then have bb: "B f' = Some b'" using a by simp
        from mem [OF bb kb'] obtain v' where v': "I k' = Some (v', f')" by blast
        have "k' \<noteq> k" using v' ik False by auto
        then show ?thesis using v' by simp
      qed
    qed
  qed
qed

lemma wfm_remove:
  assumes "wfm I B" "I k = Some (v, f)" "B f = Some b"
  shows "wfm (I(k := None)) (if remove1 k b = [] then B(f := None) else B(f \<mapsto> remove1 k b))"
  using wfm_remove_last [OF assms] wfm_remove_some [OF assms] by simp

lemma wfm_insert:
  assumes w: "wfm I B" and ik: "I k = None" and f1: "1 \<le> f"
  shows "wfm (I(k \<mapsto> (v, f))) (B(f \<mapsto> k # (case B f of None \<Rightarrow> [] | Some b \<Rightarrow> b)))"
proof -
  note mem = wfm_parts(1) [OF w] and itm = wfm_parts(2) [OF w] and dist = wfm_parts(3) [OF w]
  have notin: "\<And>f' b'. B f' = Some b' \<Longrightarrow> k \<notin> set b'"
  proof
    fix f' b' assume "B f' = Some b'" "k \<in> set b'"
    from mem [OF this] show False using ik by simp
  qed
  show ?thesis
    unfolding wfm_def
  proof (intro conjI allI impI)
    fix k' v' f' assume a: "(I(k \<mapsto> (v, f))) k' = Some (v', f')"
    show "1 \<le> f'" using a f1 itm by (auto split: if_splits)
    show "\<exists>ba. (B(f \<mapsto> k # (case B f of None \<Rightarrow> [] | Some b \<Rightarrow> b))) f' = Some ba \<and> k' \<in> set ba"
    proof (cases "k' = k")
      case True
      then show ?thesis using a by auto
    next
      case False
      then have "I k' = Some (v', f')" using a by simp
      from itm [OF this] obtain b' where "B f' = Some b'" "k' \<in> set b'" by auto
      then show ?thesis by (cases "f' = f") auto
    qed
  next
    fix f' b' assume a: "(B(f \<mapsto> k # (case B f of None \<Rightarrow> [] | Some b \<Rightarrow> b))) f' = Some b'"
    show "distinct b'"
      using a dist notin by (cases "f' = f") (auto split: option.splits)
    show "\<forall>k'\<in>set b'. \<exists>v'. (I(k \<mapsto> (v, f))) k' = Some (v', f')"
    proof
      fix k' assume kb': "k' \<in> set b'"
      show "\<exists>v'. (I(k \<mapsto> (v, f))) k' = Some (v', f')"
      proof (cases "f' = f")
        case True
        then have "b' = k # (case B f of None \<Rightarrow> [] | Some b \<Rightarrow> b)" using a by simp
        then show ?thesis using kb' mem [of f] True by (auto split: option.splits)
      next
        case False
        then have "B f' = Some b'" using a by simp
        from mem [OF this kb'] notin [OF this] kb' show ?thesis by auto
      qed
    qed
  qed
qed

lemma wfm_value:
  assumes w: "wfm I B" and ik: "I k = Some (v, f)"
  shows "wfm (I(k \<mapsto> (v', f))) B"
proof -
  note mem = wfm_parts(1) [OF w] and itm = wfm_parts(2) [OF w] and dist = wfm_parts(3) [OF w]
  show ?thesis
    unfolding wfm_def
  proof (intro conjI allI impI)
    fix k' v'' f' assume a: "(I(k \<mapsto> (v', f))) k' = Some (v'', f')"
    then have "\<exists>x. I k' = Some (x, f')" using ik by (auto split: if_splits)
    then show "1 \<le> f'" and "\<exists>b. B f' = Some b \<and> k' \<in> set b" using itm by blast+
  next
    fix f' b' assume a: "B f' = Some b'"
    show "distinct b'" using dist [OF a] .
    show "\<forall>k'\<in>set b'. \<exists>v''. (I(k \<mapsto> (v', f))) k' = Some (v'', f')"
    proof
      fix k' assume "k' \<in> set b'"
      from mem [OF a this] obtain x where "I k' = Some (x, f')" by auto
      then show "\<exists>v''. (I(k \<mapsto> (v', f))) k' = Some (v'', f')"
        using ik by (cases "k' = k") auto
    qed
  qed
qed


lemma map_of_bucket_PushFront:
  "map_of (bucket_PushFront f k bs) = (map_of bs)(f \<mapsto> k # (case map_of bs f of None \<Rightarrow> [] | Some b \<Rightarrow> b))"
  by (simp add: bucket_PushFront_def update_conv' split: option.splits)

lemma distinct_bucket_PushFront:
  "distinct (map fst bs) \<Longrightarrow> distinct (map fst (bucket_PushFront f k bs))"
  by (simp add: bucket_PushFront_def distinct_update split: option.splits)

lemma lfu_total_alt: "lfu_total c = sum_list (map item_size (items c))"
  by (simp add: lfu_total_def item_size_def [abs_def] case_prod_unfold)

lemma item_size_nonneg: "0 \<le> item_size p"
  using Len_nonneg by (simp add: item_size_def)

lemma lfu_total_nonneg: "0 \<le> lfu_total c"
  by (auto simp: lfu_total_alt intro!: sum_list_nonneg item_size_nonneg)

lemma sum_delete_distinct:
  "distinct (map fst xs) \<Longrightarrow> map_of xs k = Some vf \<Longrightarrow>
   sum_list (map item_size (AList.delete k xs)) = sum_list (map item_size xs) - item_size (k, vf)"
proof (induction xs)
  case Nil
  then show ?case by simp
next
  case (Cons a xs)
  show ?case
  proof (cases "fst a = k")
    case True
    then have "k \<notin> fst ` set xs" using Cons.prems(1) by auto
    then have "AList.delete k xs = xs" by (simp add: delete_id)
    moreover have "a = (k, vf)" using True Cons.prems(2) by (cases a) auto
    ultimately show ?thesis using True by simp
  next
    case False
    then show ?thesis using Cons by (cases a) auto
  qed
qed

lemma length_delete_distinct:
  "distinct (map fst xs) \<Longrightarrow> map_of xs k = Some vf \<Longrightarrow> Suc (length (AList.delete k xs)) = length xs"
proof (induction xs)
  case Nil
  then show ?case by simp
next
  case (Cons a xs)
  show ?case
  proof (cases "fst a = k")
    case True
    then have "k \<notin> fst ` set xs" using Cons.prems(1) by auto
    then have "AList.delete k xs = xs" by (simp add: delete_id)
    then show ?thesis using True by simp
  next
    case False
    then show ?thesis using Cons by (cases a) auto
  qed
qed

lemma sum_update_existing:
  "map_of xs k = Some (v, f) \<Longrightarrow>
   sum_list (map item_size (AList.update k (v', f') xs)) = sum_list (map item_size xs) + (Len v' - Len v)"
proof (induction xs)
  case Nil
  then show ?case by simp
next
  case (Cons a xs)
  then show ?case by (cases a) (auto simp: item_size_def)
qed

lemma sum_update_new:
  "map_of xs k = None \<Longrightarrow>
   sum_list (map item_size (AList.update k (v', f') xs)) = sum_list (map item_size xs) + (int (length k) + Len v')"
proof (induction xs)
  case Nil
  then show ?case by (simp add: item_size_def)
next
  case (Cons a xs)
  then show ?case by (cases a) (auto simp: item_size_def)
qed

lemma length_update_existing:
  "map_of xs k = Some x \<Longrightarrow> length (AList.update k y xs) = length xs"
  by (induction xs) auto

lemma increment_facts:
  assumes wf: "lfu_wf c" and ik: "map_of (items c) k = Some (v, f)"
  shows "lfu_wf (increment c k)"
    and "map_of (items (increment c k)) = (map_of (items c))(k \<mapsto> (v, f + 1))"
    and "lfu_nbytes (increment c k) = lfu_nbytes c"
    and "lfu_maxBytes (increment c k) = lfu_maxBytes c"
    and "lfu_total (increment c k) = lfu_total c"
    and "length (items (increment c k)) = length (items c)"
proof -
  have w: "wfm (map_of (items c)) (map_of (buckets c))"
    and di: "distinct (map fst (items c))" and dbk: "distinct (map fst (buckets c))"
    using wf by (simp_all add: lfu_wf_def)
  from wfm_parts(2) [OF w ik] obtain b where bf: "map_of (buckets c) f = Some b" and f1: "1 \<le> f" by blast
  define bs1 where "bs1 = (if remove1 k b = [] then AList.delete f (buckets c) else AList.update f (remove1 k b) (buckets c))"
  define mf1 where "mf1 = (if remove1 k b = [] then (if minFreq c = f then f + 1 else minFreq c) else minFreq c)"
  have inc: "increment c k =
      c\<lparr>buckets := bucket_PushFront (f + 1) k bs1, minFreq := mf1,
        items := AList.update k (v, f + 1) (items c)\<rparr>"
    using ik bf by (simp add: increment_def bs1_def mf1_def)
  have m1: "map_of bs1 = (if remove1 k b = [] then (map_of (buckets c))(f := None) else (map_of (buckets c))(f \<mapsto> remove1 k b))"
    by (simp add: bs1_def delete_conv' update_conv')
  have d1: "distinct (map fst bs1)"
    using dbk by (simp add: bs1_def distinct_delete distinct_update)
  have w1: "wfm ((map_of (items c))(k := None)) (map_of bs1)"
    unfolding m1 by (rule wfm_remove [OF w ik bf])
  have w2: "wfm (((map_of (items c))(k := None))(k \<mapsto> (v, f + 1)))
               ((map_of bs1)(f + 1 \<mapsto> k # (case map_of bs1 (f + 1) of None \<Rightarrow> [] | Some b \<Rightarrow> b)))"
    using f1 by (intro wfm_insert [OF w1]) simp_all
  show "lfu_wf (increment c k)"
    using w2 di d1
    by (simp add: inc lfu_wf_def update_conv' map_of_bucket_PushFront distinct_update distinct_bucket_PushFront)
  show "map_of (items (increment c k)) = (map_of (items c))(k \<mapsto> (v, f + 1))"
    by (simp add: inc update_conv')
  show "lfu_nbytes (increment c k) = lfu_nbytes c" by (simp add: inc)
  show "lfu_maxBytes (increment c k) = lfu_maxBytes c" by (simp add: inc)
  show "lfu_total (increment c k) = lfu_total c"
    using sum_update_existing [OF ik, of v "f + 1"] by (simp add: inc lfu_total_alt)
  show "length (items (increment c k)) = length (items c)"
    using length_update_existing [OF ik] by (simp add: inc)
qed


lemma lfu_removeEntry_facts:
  assumes wf: "lfu_wf c" and ik: "map_of (items c) k = Some (v, f)"
  shows "lfu_wf (fst (lfu_removeEntry c k reason))"
    and "map_of (items (fst (lfu_removeEntry c k reason))) = (map_of (items c))(k := None)"
    and "lfu_nbytes (fst (lfu_removeEntry c k reason)) = lfu_nbytes c - entry_size (k, v)"
    and "lfu_maxBytes (fst (lfu_removeEntry c k reason)) = lfu_maxBytes c"
    and "lfu_total (fst (lfu_removeEntry c k reason)) = lfu_total c - entry_size (k, v)"
    and "Suc (length (items (fst (lfu_removeEntry c k reason)))) = length (items c)"
    and "snd (lfu_removeEntry c k reason) = [(k, v, reason)]"
proof -
  have w: "wfm (map_of (items c)) (map_of (buckets c))"
    and di: "distinct (map fst (items c))" and dbk: "distinct (map fst (buckets c))"
    using wf by (simp_all add: lfu_wf_def)
  from wfm_parts(2) [OF w ik] obtain b where bf: "map_of (buckets c) f = Some b" by blast
  define bs1 where "bs1 = (if remove1 k b = [] then AList.delete f (buckets c) else AList.update f (remove1 k b) (buckets c))"
  let ?r = "fst (lfu_removeEntry c k reason)"
  have flds: "buckets ?r = bs1 \<and> items ?r = AList.delete k (items c) \<and>
              lfu_nbytes ?r = lfu_nbytes c - (int (length k) + Len v) \<and>
              lfu_maxBytes ?r = lfu_maxBytes c"
    using ik bf by (simp add: lfu_removeEntry_def bs1_def recalculateMinFreq_def Let_def)
  have m1: "map_of bs1 = (if remove1 k b = [] then (map_of (buckets c))(f := None) else (map_of (buckets c))(f \<mapsto> remove1 k b))"
    by (simp add: bs1_def delete_conv' update_conv')
  have d1: "distinct (map fst bs1)"
    using dbk by (simp add: bs1_def distinct_delete distinct_update)
  have w1: "wfm ((map_of (items c))(k := None)) (map_of bs1)"
    unfolding m1 by (rule wfm_remove [OF w ik bf])
  show "lfu_wf ?r"
    using w1 d1 di flds by (simp add: lfu_wf_def delete_conv' distinct_delete)
  show "map_of (items ?r) = (map_of (items c))(k := None)"
    using flds by (simp add: delete_conv')
  show "lfu_nbytes ?r = lfu_nbytes c - entry_size (k, v)"
    using flds by (simp add: entry_size_def)
  show "lfu_maxBytes ?r = lfu_maxBytes c" using flds by simp
  show "lfu_total ?r = lfu_total c - entry_size (k, v)"
    using flds sum_delete_distinct [OF di ik] by (simp add: lfu_total_alt entry_size_def item_size_def)
  show "Suc (length (items ?r)) = length (items c)"
    using flds length_delete_distinct [OF di ik] by simp
  show "snd (lfu_removeEntry c k reason) = [(k, v, reason)]"
    using ik by (simp add: lfu_removeEntry_def Let_def)
qed

lemma fold_minfreq:
  assumes "\<forall>(f, l) \<in> set bs. l \<noteq> [] \<longrightarrow> 1 \<le> f" and "0 \<le> m0"
  shows "(fold minfreq_step bs m0 = m0 \<or> (\<exists>l. (fold minfreq_step bs m0, l) \<in> set bs \<and> l \<noteq> [])) \<and>
         (1 \<le> m0 \<or> (\<exists>(f, l) \<in> set bs. l \<noteq> []) \<longrightarrow> 1 \<le> fold minfreq_step bs m0)"
  using assms
proof (induction bs arbitrary: m0)
  case Nil
  then show ?case by simp
next
  case (Cons a bs)
  obtain f l where a: "a = (f, l)" by (cases a)
  have pre: "\<forall>(f, l) \<in> set bs. l \<noteq> [] \<longrightarrow> 1 \<le> f" using Cons.prems by auto
  have m1: "0 \<le> minfreq_step a m0"
    using Cons.prems a by (auto simp: minfreq_step_def)
  note IH = Cons.IH [OF pre m1]
  show ?case
  proof (cases "l = []")
    case True
    then have "minfreq_step a m0 = m0" by (simp add: a minfreq_step_def)
    then show ?thesis using IH True a by auto
  next
    case False
    then have f1: "1 \<le> f" using Cons.prems a by auto
    have s: "minfreq_step a m0 = f \<or> (minfreq_step a m0 = m0 \<and> 1 \<le> m0)"
      using False f1 Cons.prems(2) by (auto simp: a minfreq_step_def)
    then have ge: "1 \<le> minfreq_step a m0" using f1 by auto
    have r1: "1 \<le> fold minfreq_step bs (minfreq_step a m0)" using IH ge by blast
    have "fold minfreq_step bs (minfreq_step a m0) = m0 \<or>
          (\<exists>l'. (fold minfreq_step bs (minfreq_step a m0), l') \<in> set (a # bs) \<and> l' \<noteq> [])"
      using IH s False a by auto
    then show ?thesis using r1 by simp
  qed
qed

lemma recalculate_nonempty:
  assumes d: "distinct (map fst bs)"
    and pos: "\<forall>(f, l) \<in> set bs. l \<noteq> [] \<longrightarrow> 1 \<le> f"
    and ex: "\<exists>(f, l) \<in> set bs. l \<noteq> []"
  shows "\<exists>l. map_of bs (fold minfreq_step bs 0) = Some l \<and> l \<noteq> []"
proof -
  from fold_minfreq [OF pos, of 0] ex
  have "1 \<le> fold minfreq_step bs 0"
    and "fold minfreq_step bs 0 = 0 \<or> (\<exists>l. (fold minfreq_step bs 0, l) \<in> set bs \<and> l \<noteq> [])"
    by blast+
  then obtain l where "(fold minfreq_step bs 0, l) \<in> set bs" "l \<noteq> []" by auto
  then show ?thesis using d by (auto simp: map_of_eq_Some_iff)
qed


lemma wfm_drop_empty:
  assumes w: "wfm I B" and e: "B f = None \<or> B f = Some []"
  shows "wfm I (B(f := None))"
proof -
  note mem = wfm_parts(1) [OF w] and itm = wfm_parts(2) [OF w] and dist = wfm_parts(3) [OF w]
  show ?thesis
    unfolding wfm_def
  proof (intro conjI allI impI)
    fix k v f' assume a: "I k = Some (v, f')"
    from itm [OF a] obtain b where b: "1 \<le> f'" "B f' = Some b" "k \<in> set b" by blast
    have "f' \<noteq> f" using b e by auto
    then show "1 \<le> f'" and "\<exists>b. (B(f := None)) f' = Some b \<and> k \<in> set b" using b by auto
  next
    fix f' b assume a: "(B(f := None)) f' = Some b"
    have "f' \<noteq> f" using a by (cases "f' = f") simp_all
    then have bb: "B f' = Some b" using a by simp
    show "distinct b" using dist [OF bb] .
    show "\<forall>k\<in>set b. \<exists>v. I k = Some (v, f')" using mem [OF bb] by blast
  qed
qed

lemma lfu_wf_buckets_pos:
  assumes "lfu_wf c"
  shows "\<forall>(f, l) \<in> set (buckets c). l \<noteq> [] \<longrightarrow> 1 \<le> f"
proof (clarify)
  fix f l assume m: "(f, l) \<in> set (buckets c)" and ne: "l \<noteq> []"
  have w: "wfm (map_of (items c)) (map_of (buckets c))" and d: "distinct (map fst (buckets c))"
    using assms by (simp_all add: lfu_wf_def)
  have bf: "map_of (buckets c) f = Some l" using m d by simp
  obtain k where k: "k \<in> set l" using ne by (cases l) auto
  from wfm_parts(1) [OF w bf k] obtain v where "map_of (items c) k = Some (v, f)" by blast
  from wfm_parts(2) [OF w this] show "1 \<le> f" by blast
qed

lemma lfu_wf_bucket_exists:
  assumes "lfu_wf c" "items c \<noteq> []"
  shows "\<exists>(f, l) \<in> set (buckets c). l \<noteq> []"
proof -
  have w: "wfm (map_of (items c)) (map_of (buckets c))" and di: "distinct (map fst (items c))"
    using assms by (simp_all add: lfu_wf_def)
  obtain k v f rest where "items c = (k, v, f) # rest" using assms(2) by (cases "items c") auto
  then have "map_of (items c) k = Some (v, f)" by simp
  from wfm_parts(2) [OF w this] obtain b where "map_of (buckets c) f = Some b" "k \<in> set b" by blast
  then have "(f, b) \<in> set (buckets c)" "b \<noteq> []" by (auto dest: map_of_SomeD)
  then show ?thesis by blast
qed

lemma lfu_scan_facts:
  assumes "lfu_wf c" "items c \<noteq> []"
  shows "lfu_wf (lfu_scan c) \<and> items (lfu_scan c) = items c \<and>
         lfu_nbytes (lfu_scan c) = lfu_nbytes c \<and> lfu_maxBytes (lfu_scan c) = lfu_maxBytes c \<and>
         \<not> bucket_empty (lfu_scan c)"
  using assms
proof (induction c rule: lfu_scan.induct)
  case (1 c)
  show ?case
  proof (cases "bucket_empty c")
    case False
    then have "lfu_scan c = c" by (subst lfu_scan.simps) simp
    then show ?thesis using False "1.prems" by simp
  next
    case True
    define c1 where "c1 = c\<lparr>buckets := AList.delete (minFreq c) (buckets c), minFreq := minFreq c + 1\<rparr>"
    have e: "map_of (buckets c) (minFreq c) = None \<or> map_of (buckets c) (minFreq c) = Some []"
      using True by (auto simp: bucket_empty_def split: option.splits)
    have w0: "wfm (map_of (items c)) (map_of (buckets c))"
      using "1.prems"(1) by (simp add: lfu_wf_def)
    have wf1: "lfu_wf c1"
      using "1.prems"(1) wfm_drop_empty [of "map_of (items c)" "map_of (buckets c)" "minFreq c", OF w0 e]
      by (simp add: lfu_wf_def c1_def delete_conv' distinct_delete)
    have it1: "items c1 = items c" "lfu_nbytes c1 = lfu_nbytes c" "lfu_maxBytes c1 = lfu_maxBytes c"
      by (simp_all add: c1_def)
    have ne1: "items c1 \<noteq> []" using "1.prems"(2) it1 by simp
    show ?thesis
    proof (cases "minFreq c1 > 1000000")
      case big: True
      have sc: "lfu_scan c = recalculateMinFreq c1"
        using True big by (subst lfu_scan.simps) (simp add: c1_def Let_def)
      have d1: "distinct (map fst (buckets c1))" using wf1 by (simp add: lfu_wf_def)
      from recalculate_nonempty [OF d1 lfu_wf_buckets_pos [OF wf1] lfu_wf_bucket_exists [OF wf1 ne1]]
      have "\<not> bucket_empty (recalculateMinFreq c1)"
        by (auto simp: bucket_empty_def recalculateMinFreq_def)
      moreover have "lfu_wf (recalculateMinFreq c1)"
        using wf1 by (simp add: lfu_wf_def recalculateMinFreq_def)
      ultimately show ?thesis
        using sc it1 by (simp add: recalculateMinFreq_def)
    next
      case small: False
      have sc: "lfu_scan c = lfu_scan c1"
        using True small by (subst lfu_scan.simps) (simp add: c1_def Let_def)
      have "lfu_wf (lfu_scan c1) \<and> items (lfu_scan c1) = items c1 \<and>
         lfu_nbytes (lfu_scan c1) = lfu_nbytes c1 \<and> lfu_maxBytes (lfu_scan c1) = lfu_maxBytes c1 \<and>
         \<not> bucket_empty (lfu_scan c1)"
        unfolding c1_def
      proof (rule "1.IH" [OF True refl])
        show "\<not> 1000000 < minFreq (c\<lparr>buckets := AList.delete (minFreq c) (buckets c), minFreq := minFreq c + 1\<rparr>)"
          using small unfolding c1_def .
        show "lfu_wf (c\<lparr>buckets := AList.delete (minFreq c) (buckets c), minFreq := minFreq c + 1\<rparr>)"
          using wf1 unfolding c1_def .
        show "items (c\<lparr>buckets := AList.delete (minFreq c) (buckets c), minFreq := minFreq c + 1\<rparr>) \<noteq> []"
          using ne1 unfolding c1_def .
      qed
      then show ?thesis using sc it1 by simp
    qed
  qed
qed

lemma evictOne_facts:
  assumes wf: "lfu_wf c" and ne: "items c \<noteq> []"
  shows "\<exists>k v f. map_of (items c) k = Some (v, f) \<and>
           snd (evictOne c) = [(k, v, RemoveReasonEvicted)] \<and>
           lfu_wf (fst (evictOne c)) \<and>
           map_of (items (fst (evictOne c))) = (map_of (items c))(k := None) \<and>
           lfu_nbytes (fst (evictOne c)) = lfu_nbytes c - entry_size (k, v) \<and>
           lfu_maxBytes (fst (evictOne c)) = lfu_maxBytes c \<and>
           lfu_total (fst (evictOne c)) = lfu_total c - entry_size (k, v) \<and>
           Suc (length (items (fst (evictOne c)))) = length (items c)"
proof -
  define c1 where "c1 = lfu_scan c"
  have s: "lfu_wf c1" "items c1 = items c" "lfu_nbytes c1 = lfu_nbytes c"
    "lfu_maxBytes c1 = lfu_maxBytes c" "\<not> bucket_empty c1"
    using lfu_scan_facts [OF wf ne] by (simp_all add: c1_def)
  from s(5) obtain b where b: "map_of (buckets c1) (minFreq c1) = Some b" "b \<noteq> []"
    by (auto simp: bucket_empty_def split: option.splits)
  have ev: "evictOne c = lfu_removeEntry c1 (last b) RemoveReasonEvicted"
    using ne b by (simp add: evictOne_def c1_def [symmetric])
  have w: "wfm (map_of (items c1)) (map_of (buckets c1))" using s(1) by (simp add: lfu_wf_def)
  have "last b \<in> set b" using b(2) by simp
  from wfm_parts(1) [OF w b(1) this] obtain v where ik: "map_of (items c1) (last b) = Some (v, minFreq c1)"
    by blast
  have tot: "lfu_total c1 = lfu_total c" using s(2) by (simp add: lfu_total_alt)
  note rf = lfu_removeEntry_facts [OF s(1) ik, of RemoveReasonEvicted]
  show ?thesis
    apply (rule exI [of _ "last b"], rule exI [of _ v], rule exI [of _ "minFreq c1"])
    using rf ik s(2,3,4) tot unfolding ev by simp
qed


lemma lfu_evict_stop:
  "\<not> (lfu_maxBytes c \<noteq> 0 \<and> lfu_nbytes c > lfu_maxBytes c) \<Longrightarrow> lfu_evict c evs = Some (c, evs)"
proof -
  assume "\<not> (lfu_maxBytes c \<noteq> 0 \<and> lfu_nbytes c > lfu_maxBytes c)"
  then have nc: "(lfu_maxBytes c \<noteq> 0 \<and> lfu_nbytes c > lfu_maxBytes c) = False" by simp
  show ?thesis by (subst lfu_evict.simps) (simp only: nc if_False)
qed

lemma lfu_evict_step:
  "lfu_maxBytes c \<noteq> 0 \<and> lfu_nbytes c > lfu_maxBytes c \<Longrightarrow>
   lfu_evict c evs = lfu_evict (fst (evictOne c)) (evs @ snd (evictOne c))"
proof -
  assume "lfu_maxBytes c \<noteq> 0 \<and> lfu_nbytes c > lfu_maxBytes c"
  then have yc: "(lfu_maxBytes c \<noteq> 0 \<and> lfu_nbytes c > lfu_maxBytes c) = True" by simp
  show ?thesis by (subst lfu_evict.simps) (simp only: yc if_True)
qed

lemma lfu_evict_result:
  assumes "lfu_wf c" and "lfu_nbytes c - lfu_total c \<le> lfu_maxBytes c"
  shows "\<exists>c' evs'. lfu_evict c evs = Some (c', evs @ evs') \<and> lfu_wf c' \<and>
           lfu_maxBytes c' = lfu_maxBytes c \<and>
           (lfu_maxBytes c = 0 \<or> lfu_nbytes c' \<le> lfu_maxBytes c) \<and>
           (\<forall>e \<in> set evs'. snd (snd e) = RemoveReasonEvicted) \<and>
           (\<forall>k'. lfu_Peek c' k' = (if k' \<in> fst ` set evs' then None else lfu_Peek c k')) \<and>
           (\<not> (lfu_maxBytes c \<noteq> 0 \<and> lfu_nbytes c > lfu_maxBytes c) \<longrightarrow> evs' = [] \<and> c' = c)"
  using assms
proof (induction "length (items c)" arbitrary: c evs)
  case 0
  then have e: "items c = []" by simp
  then have nc: "\<not> (lfu_maxBytes c \<noteq> 0 \<and> lfu_nbytes c > lfu_maxBytes c)"
    using "0.prems" by (auto simp: lfu_total_alt)
  show ?case
    using nc lfu_evict_stop [OF nc, of evs] "0.prems"(1)
    by (intro exI [of _ c] exI [of _ "[]"]) auto
next
  case (Suc m)
  show ?case
  proof (cases "lfu_maxBytes c \<noteq> 0 \<and> lfu_nbytes c > lfu_maxBytes c")
    case False
    show ?thesis
      using False lfu_evict_stop [OF False, of evs] Suc.prems(1)
      by (intro exI [of _ c] exI [of _ "[]"]) auto
  next
    case True
    have ne: "items c \<noteq> []" using Suc.hyps(2) by auto
    define c1 where "c1 = fst (evictOne c)"
    from evictOne_facts [OF Suc.prems(1) ne]
    obtain k v f where ik: "map_of (items c) k = Some (v, f)"
      and sn: "snd (evictOne c) = [(k, v, RemoveReasonEvicted)]"
      and wf1: "lfu_wf c1"
      and it1: "map_of (items c1) = (map_of (items c))(k := None)"
      and nb1: "lfu_nbytes c1 = lfu_nbytes c - entry_size (k, v)"
      and mb1: "lfu_maxBytes c1 = lfu_maxBytes c"
      and tot1: "lfu_total c1 = lfu_total c - entry_size (k, v)"
      and len1: "Suc (length (items c1)) = length (items c)"
      unfolding c1_def by blast
    have step: "lfu_evict c evs = lfu_evict c1 (evs @ [(k, v, RemoveReasonEvicted)])"
      using lfu_evict_step [OF True, of evs] sn by (simp add: c1_def)
    have len: "m = length (items c1)" using Suc.hyps(2) len1 by simp
    have r1: "lfu_nbytes c1 - lfu_total c1 \<le> lfu_maxBytes c1"
      using Suc.prems(2) nb1 mb1 tot1 by simp
    from Suc.hyps(1) [OF len wf1 r1, of "evs @ [(k, v, RemoveReasonEvicted)]"]
    obtain c' evs' where ev: "lfu_evict c1 (evs @ [(k, v, RemoveReasonEvicted)]) = Some (c', (evs @ [(k, v, RemoveReasonEvicted)]) @ evs')"
      and wf': "lfu_wf c'" and mb': "lfu_maxBytes c' = lfu_maxBytes c1"
      and bud: "lfu_maxBytes c1 = 0 \<or> lfu_nbytes c' \<le> lfu_maxBytes c1"
      and rs: "\<forall>e \<in> set evs'. snd (snd e) = RemoveReasonEvicted"
      and pk: "\<forall>k'. lfu_Peek c' k' = (if k' \<in> fst ` set evs' then None else lfu_Peek c1 k')"
      by blast
    have pk1: "\<And>k'. lfu_Peek c1 k' = (if k' = k then None else lfu_Peek c k')"
      using it1 by (simp add: lfu_Peek_def)
    show ?thesis
      apply (intro exI [of _ c'] exI [of _ "(k, v, RemoveReasonEvicted) # evs'"])
      using step ev wf' mb' mb1 bud rs pk pk1 True by auto
  qed
qed

lemma lfu_Add_put: "lfu_Add c key val = lfu_evict (lfu_put c key val) []"
  by (simp add: lfu_Add_def lfu_put_def)

lemma lfu_put_facts:
  assumes wf: "lfu_wf c"
  shows "lfu_wf (lfu_put c k v) \<and> lfu_maxBytes (lfu_put c k v) = lfu_maxBytes c \<and>
      lfu_Peek (lfu_put c k v) = (lfu_Peek c)(k \<mapsto> v) \<and>
      lfu_nbytes (lfu_put c k v) - lfu_total (lfu_put c k v) = lfu_nbytes c - lfu_total c \<and>
      lfu_nbytes (lfu_put c k v) =
           lfu_nbytes c + (case lfu_Peek c k of Some old \<Rightarrow> Len v - Len old | None \<Rightarrow> int (length k) + Len v)"
proof -
  have w: "wfm (map_of (items c)) (map_of (buckets c))"
    and di: "distinct (map fst (items c))" and dbk: "distinct (map fst (buckets c))"
    using wf by (simp_all add: lfu_wf_def)
  show ?thesis
  proof (cases "map_of (items c) k")
    case None
    have put: "lfu_put c k v = c\<lparr>buckets := bucket_PushFront 1 k (buckets c),
              items := AList.update k (v, 1) (items c),
              lfu_nbytes := lfu_nbytes c + (int (length k) + Len v),
              minFreq := 1\<rparr>"
      using None by (simp add: lfu_put_def)
    have w2: "wfm ((map_of (items c))(k \<mapsto> (v, 1)))
               ((map_of (buckets c))(1 \<mapsto> k # (case map_of (buckets c) 1 of None \<Rightarrow> [] | Some b \<Rightarrow> b)))"
      by (rule wfm_insert [OF w None]) simp
    have "lfu_wf (lfu_put c k v)"
      using w2 di dbk
      by (simp add: put lfu_wf_def update_conv' map_of_bucket_PushFront distinct_update distinct_bucket_PushFront)
    moreover have "lfu_total (lfu_put c k v) = lfu_total c + (int (length k) + Len v)"
      using sum_update_new [OF None, of v 1] by (simp add: put lfu_total_alt)
    moreover have "lfu_Peek (lfu_put c k v) = (lfu_Peek c)(k \<mapsto> v)"
      by (auto simp: put lfu_Peek_def update_conv')
    ultimately show ?thesis
      using None by (simp add: put lfu_Peek_def)
  next
    case (Some a)
    obtain old f where a: "a = (old, f)" by (cases a)
    define c0 where "c0 = c\<lparr>lfu_nbytes := lfu_nbytes c + (Len v - Len old),
                 items := AList.update k (v, f) (items c)\<rparr>"
    have put: "lfu_put c k v = increment c0 k"
      using Some a by (simp add: lfu_put_def c0_def)
    have ik: "map_of (items c) k = Some (old, f)" using Some a by simp
    have wf0: "lfu_wf c0"
      using wfm_value [OF w ik, of v] di dbk
      by (simp add: c0_def lfu_wf_def update_conv' distinct_update)
    have ik0: "map_of (items c0) k = Some (v, f)" by (simp add: c0_def update_conv')
    have tot0: "lfu_total c0 = lfu_total c + (Len v - Len old)"
      using sum_update_existing [OF ik, of v f] by (simp add: c0_def lfu_total_alt)
    note inc = increment_facts [OF wf0 ik0]
    have "lfu_Peek (lfu_put c k v) = (lfu_Peek c)(k \<mapsto> v)"
      using inc(2) by (auto simp: put lfu_Peek_def c0_def update_conv')
    then show ?thesis
      using inc(1,3,4,5) tot0 ik by (simp add: put c0_def lfu_Peek_def)
  qed
qed

subsection \<open>The cache interface\<close>

lemma map_of_MoveToFront: "map_of (MoveToFront k l) = map_of l"
  by (auto simp: MoveToFront_def map_of_filter_neq fun_eq_iff split: option.splits)

lemma distinct_MoveToFront: "distinct (map fst l) \<Longrightarrow> distinct (map fst (MoveToFront k l))"
  by (auto simp: MoveToFront_def distinct_filter_fst split: option.splits)

lemma cache_Get_facts:
  "fst (cache_Get c k) = cache_Peek c k \<and>
   cache_Peek (snd (cache_Get c k)) = cache_Peek c \<and>
   cache_nbytes (snd (cache_Get c k)) = cache_nbytes c \<and>
   cache_maxBytes (snd (cache_Get c k)) = cache_maxBytes c"
proof (cases c)
  case (LRU x)
  then show ?thesis
    by (simp add: lru_Get_def lru_Peek_def map_of_MoveToFront fun_eq_iff)
next
  case (LFU x)
  show ?thesis
  proof (cases "map_of (items x) k")
    case None
    then show ?thesis using LFU by (simp add: lfu_Get_def lfu_Peek_def)
  next
    case (Some a)
    obtain v f where a: "a = (v, f)" by (cases a)
    have "items (increment x k) = AList.update k (v, f + 1) (items x)"
      and "lfu_nbytes (increment x k) = lfu_nbytes x" and "lfu_maxBytes (increment x k) = lfu_maxBytes x"
      using Some a by (auto simp: increment_def Let_def split: option.splits)
    then show ?thesis
      using LFU Some a by (auto simp: lfu_Get_def lfu_Peek_def update_conv' fun_eq_iff)
  qed
qed

lemma cache_Get_wf: "cache_wf c \<Longrightarrow> cache_wf (snd (cache_Get c k))"
proof (cases c)
  case (LRU x)
  assume "cache_wf c"
  then show ?thesis using LRU by (simp add: lru_Get_def lru_wf_def distinct_MoveToFront)
next
  case (LFU x)
  assume w: "cache_wf c"
  show ?thesis
  proof (cases "map_of (items x) k")
    case None
    then show ?thesis using LFU w by (simp add: lfu_Get_def)
  next
    case (Some a)
    obtain v f where a: "a = (v, f)" by (cases a)
    have "lfu_wf x" using w LFU by simp
    from increment_facts(1) [OF this, of k v f] Some a
    show ?thesis using LFU by (simp add: lfu_Get_def)
  qed
qed

lemma cache_Remove_facts:
  "cache_Peek (fst (cache_Remove c k)) = (cache_Peek c)(k := None) \<and>
   snd (cache_Remove c k) = (case cache_Peek c k of None \<Rightarrow> [] | Some v \<Rightarrow> [(k, v, RemoveReasonDeleted)]) \<and>
   cache_maxBytes (fst (cache_Remove c k)) = cache_maxBytes c \<and>
   cache_nbytes (fst (cache_Remove c k)) \<le> cache_nbytes c"
proof (cases c)
  case (LRU x)
  show ?thesis
  proof (cases "map_of (ll x) k")
    case None
    then show ?thesis using LRU by (auto simp: lru_Remove_def removeEntry_def lru_Peek_def fun_eq_iff)
  next
    case (Some v)
    then show ?thesis
      using LRU Len_nonneg [of v]
      by (auto simp: lru_Remove_def removeEntry_def lru_Peek_def map_of_filter_neq fun_eq_iff)
  qed
next
  case (LFU x)
  show ?thesis
  proof (cases "map_of (items x) k")
    case None
    then show ?thesis using LFU by (auto simp: lfu_Remove_def lfu_removeEntry_def lfu_Peek_def fun_eq_iff)
  next
    case (Some a)
    obtain v f where a: "a = (v, f)" by (cases a)
    let ?r = "fst (lfu_removeEntry x k RemoveReasonDeleted)"
    have "items ?r = AList.delete k (items x) \<and>
          lfu_nbytes ?r = lfu_nbytes x - (int (length k) + Len v) \<and>
          lfu_maxBytes ?r = lfu_maxBytes x \<and>
          snd (lfu_removeEntry x k RemoveReasonDeleted) = [(k, v, RemoveReasonDeleted)]"
      using Some a by (simp add: lfu_removeEntry_def recalculateMinFreq_def Let_def split: option.splits)
    then show ?thesis
      using LFU Some a Len_nonneg [of v]
      by (auto simp: lfu_Remove_def lfu_Peek_def delete_conv' fun_eq_iff)
  qed
qed

lemma cache_Remove_wf: "cache_wf c \<Longrightarrow> cache_wf (fst (cache_Remove c k))"
proof (cases c)
  case (LRU x)
  assume "cache_wf c"
  then show ?thesis using LRU
    by (auto simp: lru_Remove_def removeEntry_def lru_wf_def distinct_filter_fst split: option.splits)
next
  case (LFU x)
  assume w: "cache_wf c"
  show ?thesis
  proof (cases "map_of (items x) k")
    case None
    then show ?thesis using LFU w by (simp add: lfu_Remove_def lfu_removeEntry_def)
  next
    case (Some a)
    obtain v f where a: "a = (v, f)" by (cases a)
    have "lfu_wf x" using w LFU by simp
    from lfu_removeEntry_facts(1) [OF this, of k v f RemoveReasonDeleted] Some a
    show ?thesis using LFU by (simp add: lfu_Remove_def)
  qed
qed

lemma map_of_lru_mut:
  "map_of (map (\<lambda>p. if fst p = k then (k, v) else p) xs) k' =
     (if k' = k then map_option (\<lambda>_. v) (map_of xs k) else map_of xs k')"
  by (induction xs) auto

lemma map_fst_lru_mut: "map fst (map (\<lambda>p. if fst p = k then (k, v) else p) xs) = map fst xs"
  by (induction xs) auto

lemma map_of_lfu_mut:
  "map_of (map (\<lambda>p. if fst p = k then (k, v, snd (snd p)) else p) xs) k' =
     (if k' = k then map_option (\<lambda>w. (v, snd w)) (map_of xs k) else map_of xs k')"
  by (induction xs) auto

lemma map_fst_lfu_mut:
  "map fst (map (\<lambda>p. if fst p = k then (k, v, snd (snd p)) else p) xs) = map fst xs"
  by (induction xs) auto

lemma cache_mutate_facts:
  "cache_Peek (cache_mutate c k v) = (if cache_Peek c k = None then cache_Peek c else (cache_Peek c)(k \<mapsto> v)) \<and>
   cache_nbytes (cache_mutate c k v) = cache_nbytes c \<and>
   cache_maxBytes (cache_mutate c k v) = cache_maxBytes c"
proof (cases c)
  case (LRU x)
  then show ?thesis
    by (auto simp: lru_mutate_def lru_Peek_def fun_eq_iff map_of_lru_mut)
next
  case (LFU x)
  then show ?thesis
    by (auto simp: lfu_mutate_def lfu_Peek_def fun_eq_iff map_of_lfu_mut)
qed

lemma cache_mutate_wf: "cache_wf c \<Longrightarrow> cache_wf (cache_mutate c k v)"
proof (cases c)
  case (LRU x)
  assume "cache_wf c"
  then show ?thesis
    using LRU by (simp add: lru_mutate_def lru_wf_def map_fst_lru_mut del: map_map)
next
  case (LFU x)
  assume cw: "cache_wf c"
  then have w: "wfm (map_of (items x)) (map_of (buckets x))"
    and di: "distinct (map fst (items x))" and dbk: "distinct (map fst (buckets x))"
    using LFU by (simp_all add: lfu_wf_def)
  let ?it = "map (\<lambda>p. if fst p = k then (k, v, snd (snd p)) else p) (items x)"
  have mf: "map fst ?it = map fst (items x)" by (rule map_fst_lfu_mut)
  have "wfm (map_of ?it) (map_of (buckets x))"
  proof (cases "map_of (items x) k")
    case None
    then have "map_of ?it = map_of (items x)" by (auto simp: fun_eq_iff map_of_lfu_mut)
    then show ?thesis using w by simp
  next
    case (Some a)
    obtain old f where a: "a = (old, f)" by (cases a)
    have "map_of ?it = (map_of (items x))(k \<mapsto> (v, f))"
      using Some a by (auto simp: fun_eq_iff map_of_lfu_mut)
    then show ?thesis using wfm_value [OF w, of k old f v] Some a by simp
  qed
  then show ?thesis using LFU di dbk mf by (simp add: lfu_mutate_def lfu_wf_def del: map_map)
qed

lemma cache_Add_result:
  assumes wf: "cache_wf c" and bud: "cache_budget c"
  shows "\<exists>c' evs. cache_Add c k v = Some (c', evs) \<and> cache_wf c' \<and> cache_budget c' \<and>
           cache_maxBytes c' = cache_maxBytes c \<and>
           (\<forall>e \<in> set evs. snd (snd e) = RemoveReasonEvicted) \<and>
           (\<forall>k'. cache_Peek c' k' =
                   (if k' \<in> fst ` set evs then None else ((cache_Peek c)(k \<mapsto> v)) k')) \<and>
           (cache_maxBytes c = 0 \<or> cache_nbytes c + add_delta c k v \<le> cache_maxBytes c \<longrightarrow>
              evs = [] \<and> cache_nbytes c' = cache_nbytes c + add_delta c k v)"
proof (cases c)
  case (LRU x)
  have wfx: "lru_wf x" and bx: "maxBytes x = 0 \<or> (0 < maxBytes x \<and> nbytes x \<le> maxBytes x)"
    using wf bud LRU by (simp_all add: cache_budget_def)
  have nbp: "nbytes (lru_put x k v) = nbytes x + add_delta c k v"
    using LRU by (simp add: lru_put_def add_delta_def lru_Peek_def split: option.splits)
  from lru_Add_result [OF wfx bx, of k v]
  obtain c' evs where r: "lru_Add x k v = Some (c', evs)" "lru_wf c'" "maxBytes c' = maxBytes x"
    "maxBytes c' = 0 \<or> nbytes c' \<le> maxBytes c'"
    "\<forall>e \<in> set evs. snd (snd e) = RemoveReasonEvicted"
    "\<forall>k'. map_of (ll c') k' = (if k' \<in> fst ` set evs then None else ((map_of (ll x))(k \<mapsto> v)) k')"
    "maxBytes x = 0 \<or> nbytes (lru_put x k v) \<le> maxBytes x \<longrightarrow> evs = [] \<and> c' = lru_put x k v"
    by blast
  have "cache_budget (LRU c')" using r(3,4) bx by (auto simp: cache_budget_def)
  then show ?thesis
    apply (intro exI [of _ "LRU c'"] exI [of _ evs])
    using LRU r nbp by (auto simp: lru_Peek_def [abs_def])
next
  case (LFU x)
  have wfx: "lfu_wf x" and bx: "lfu_maxBytes x = 0 \<or> (0 < lfu_maxBytes x \<and> lfu_nbytes x \<le> lfu_maxBytes x)"
    using wf bud LFU by (simp_all add: cache_budget_def)
  let ?c0 = "lfu_put x k v"
  note pf = lfu_put_facts [OF wfx, of k v]
  have nbp: "lfu_nbytes ?c0 = lfu_nbytes x + add_delta c k v"
    using pf LFU by (simp add: add_delta_def)
  have r0: "lfu_maxBytes ?c0 \<noteq> 0 \<longrightarrow> lfu_nbytes ?c0 - lfu_total ?c0 \<le> lfu_maxBytes ?c0"
    using pf bx lfu_total_nonneg [of x] by auto
  show ?thesis
  proof (cases "lfu_maxBytes x = 0")
    case True
    then have "lfu_evict ?c0 [] = Some (?c0, [])"
      using pf by (intro lfu_evict_stop) simp
    then show ?thesis
      apply (intro exI [of _ "LFU ?c0"] exI [of _ "[]"])
      using True pf LFU nbp by (simp add: lfu_Add_put cache_budget_def)
  next
    case False
    then have r0': "lfu_nbytes ?c0 - lfu_total ?c0 \<le> lfu_maxBytes ?c0" using r0 pf by simp
    from lfu_evict_result [OF conjunct1 [OF pf] r0', of "[]"]
    obtain c' evs where r: "lfu_evict ?c0 [] = Some (c', evs)" "lfu_wf c'"
      "lfu_maxBytes c' = lfu_maxBytes ?c0" "lfu_maxBytes ?c0 = 0 \<or> lfu_nbytes c' \<le> lfu_maxBytes ?c0"
      "\<forall>e \<in> set evs. snd (snd e) = RemoveReasonEvicted"
      "\<forall>k'. lfu_Peek c' k' = (if k' \<in> fst ` set evs then None else lfu_Peek ?c0 k')"
      "\<not> (lfu_maxBytes ?c0 \<noteq> 0 \<and> lfu_nbytes ?c0 > lfu_maxBytes ?c0) \<longrightarrow> evs = [] \<and> c' = ?c0"
      by auto
    have "cache_budget (LFU c')" using r(3,4) bx pf False by (auto simp: cache_budget_def)
    then show ?thesis
      apply (intro exI [of _ "LFU c'"] exI [of _ evs])
      using LFU r pf nbp False by (auto simp: lfu_Add_put)
  qed
qed

subsection \<open>The cache calls of the database\<close>

lemma fold_onEvicted:
  "callbacks (fold onEvicted evs db) = callbacks db @ evs \<and>
   evictedKeys (fold onEvicted evs db) = evictedKeys db @ evicted_keys evs \<and>
   cache (fold onEvicted evs db) = cache db \<and>
   aofHandler (fold onEvicted evs db) = aofHandler db \<and>
   rdbFilename (fold onEvicted evs db) = rdbFilename db \<and>
   rdbSaving (fold onEvicted evs db) = rdbSaving db \<and>
   aofRewriting (fold onEvicted evs db) = aofRewriting db \<and>
   ttlMap (fold onEvicted evs db) = fold (\<lambda>e. AList.delete (fst e)) evs (ttlMap db)"
proof (induction evs arbitrary: db)
  case Nil
  then show ?case by (simp add: evicted_keys_def)
next
  case (Cons e evs)
  obtain k v r where e: "e = (k, v, r)" by (cases e)
  show ?case
    using Cons [of "onEvicted e db"] by (simp add: e onEvicted_def evicted_keys_def)
qed

lemma evicted_keys_append: "evicted_keys (a @ b) = evicted_keys a @ evicted_keys b"
  by (simp add: evicted_keys_def)

lemma trace_ext_refl: "trace_ext db db"
  by (auto simp: trace_ext_def evicted_keys_def intro: exI [of _ "[]"])

lemma trace_ext_fold:
  assumes "trace_ext db0 db"
    and "callbacks db1 = callbacks db" "evictedKeys db1 = evictedKeys db"
  shows "trace_ext db0 (fold onEvicted evs db1)"
proof -
  from assms(1) obtain es where es: "callbacks db = callbacks db0 @ es"
    "evictedKeys db = evictedKeys db0 @ evicted_keys es"
    by (auto simp: trace_ext_def)
  show ?thesis
    unfolding trace_ext_def
    by (rule exI [of _ "es @ evs"]) (simp add: fold_onEvicted assms(2,3) es evicted_keys_append)
qed

lemma trace_ext_same:
  assumes "trace_ext db0 db"
    and "callbacks db1 = callbacks db" "evictedKeys db1 = evictedKeys db"
  shows "trace_ext db0 db1"
  using trace_ext_fold [OF assms, of "[]"] by simp

lemma ok_refl: "db_inv db \<Longrightarrow> ok db db"
  by (simp add: ok_def trace_ext_refl)

lemma db_Peek_eq: "db_Peek db = cache_Peek (cache db)"
  by (simp add: fun_eq_iff db_Peek_def)

lemma db_Get_fields:
  "ttlMap (snd (db_Get db k)) = ttlMap db \<and> evictedKeys (snd (db_Get db k)) = evictedKeys db \<and>
   aofHandler (snd (db_Get db k)) = aofHandler db \<and> callbacks (snd (db_Get db k)) = callbacks db \<and>
   rdbFilename (snd (db_Get db k)) = rdbFilename db \<and> rdbSaving (snd (db_Get db k)) = rdbSaving db \<and>
   aofRewriting (snd (db_Get db k)) = aofRewriting db \<and>
   fst (db_Get db k) = db_Peek db k \<and> db_Peek (snd (db_Get db k)) = db_Peek db"
  using cache_Get_facts [of "cache db" k] by (simp add: db_Get_def db_Peek_def fun_eq_iff)

lemma db_inv_Get: "db_inv db \<Longrightarrow> db_inv (snd (db_Get db k))"
  using cache_Get_facts [of "cache db" k] cache_Get_wf [of "cache db" k]
  by (simp add: db_inv_def db_Get_def cache_budget_def)

lemma ok_Get: "ok db0 db \<Longrightarrow> ok db0 (snd (db_Get db k))"
  using db_Get_fields [of db k] db_inv_Get [of db k] trace_ext_same [of db0 db "snd (db_Get db k)"]
  by (simp add: ok_def)

lemma db_Remove_fields:
  "aofHandler (db_Remove db k) = aofHandler db \<and>
   rdbFilename (db_Remove db k) = rdbFilename db \<and> rdbSaving (db_Remove db k) = rdbSaving db \<and>
   aofRewriting (db_Remove db k) = aofRewriting db \<and>
   db_Peek (db_Remove db k) = (db_Peek db)(k := None) \<and>
   ttlMap (db_Remove db k) = (if db_Peek db k = None then ttlMap db else AList.delete k (ttlMap db)) \<and>
   evictedKeys (db_Remove db k) = evictedKeys db \<and>
   callbacks (db_Remove db k) =
     callbacks db @ (case db_Peek db k of None \<Rightarrow> [] | Some v \<Rightarrow> [(k, v, RemoveReasonDeleted)])"
  using cache_Remove_facts [of "cache db" k]
  by (auto simp: db_Remove_def db_Peek_eq fold_onEvicted evicted_keys_def onEvicted_def split: option.splits)

lemma db_inv_Remove: "db_inv db \<Longrightarrow> db_inv (db_Remove db k)"
  using cache_Remove_facts [of "cache db" k] cache_Remove_wf [of "cache db" k]
  by (auto simp: db_inv_def db_Remove_def cache_budget_def fold_onEvicted)

lemma ok_Remove: "ok db0 db \<Longrightarrow> ok db0 (db_Remove db k)"
proof -
  assume a: "ok db0 db"
  have "trace_ext db0 (db_Remove db k)"
    unfolding db_Remove_def
    by (rule trace_ext_fold [of db0 db]) (use a in \<open>simp_all add: ok_def\<close>)
  then show ?thesis
    using a db_Remove_fields [of db k] db_inv_Remove [of db k] by (simp add: ok_def)
qed

lemma db_mutate_fields:
  "ttlMap (db_mutate db k v) = ttlMap db \<and> evictedKeys (db_mutate db k v) = evictedKeys db \<and>
   aofHandler (db_mutate db k v) = aofHandler db \<and> callbacks (db_mutate db k v) = callbacks db \<and>
   rdbFilename (db_mutate db k v) = rdbFilename db \<and> rdbSaving (db_mutate db k v) = rdbSaving db \<and>
   aofRewriting (db_mutate db k v) = aofRewriting db \<and>
   db_Peek (db_mutate db k v) = (if db_Peek db k = None then db_Peek db else (db_Peek db)(k \<mapsto> v)) \<and>
   cache_nbytes (cache (db_mutate db k v)) = cache_nbytes (cache db) \<and>
   cache_maxBytes (cache (db_mutate db k v)) = cache_maxBytes (cache db)"
  using cache_mutate_facts [of "cache db" k v] by (simp add: db_mutate_def db_Peek_eq)

lemma db_inv_mutate: "db_inv db \<Longrightarrow> db_inv (db_mutate db k v)"
  using cache_mutate_facts [of "cache db" k v] cache_mutate_wf [of "cache db" k v]
  by (simp add: db_inv_def db_mutate_def cache_budget_def)

lemma ok_mutate: "ok db0 db \<Longrightarrow> ok db0 (db_mutate db k v)"
  using db_mutate_fields [of db k v] db_inv_mutate [of db k v]
    trace_ext_same [of db0 db "db_mutate db k v"]
  by (simp add: ok_def)

lemma ok_AddAof: "ok db0 db \<Longrightarrow> ok db0 (AddAof args db)"
  using trace_ext_same [of db0 db "AddAof args db"]
  by (simp add: ok_def AddAof_def db_inv_def)

lemma ok_ttlMap: "ok db0 db \<Longrightarrow> ok db0 (db\<lparr>ttlMap := t\<rparr>)"
  using trace_ext_same [of db0 db "db\<lparr>ttlMap := t\<rparr>"]
  by (simp add: ok_def db_inv_def)

lemma ok_rdbSaving: "ok db0 db \<Longrightarrow> ok db0 (db\<lparr>rdbSaving := t\<rparr>)"
  using trace_ext_same [of db0 db "db\<lparr>rdbSaving := t\<rparr>"]
  by (simp add: ok_def db_inv_def)

lemma ok_aofRewriting: "ok db0 db \<Longrightarrow> ok db0 (db\<lparr>aofRewriting := t\<rparr>)"
  using trace_ext_same [of db0 db "db\<lparr>aofRewriting := t\<rparr>"]
  by (simp add: ok_def db_inv_def)

lemma db_Add_result:
  assumes "db_inv db"
  shows "\<exists>db' evs. db_Add db k v = Some db' \<and> db_inv db' \<and>
           callbacks db' = callbacks db @ evs \<and>
           evictedKeys db' = evictedKeys db @ map fst evs \<and>
           (\<forall>e \<in> set evs. snd (snd e) = RemoveReasonEvicted) \<and>
           ttlMap db' = fold (\<lambda>e. AList.delete (fst e)) evs (ttlMap db) \<and>
           aofHandler db' = aofHandler db \<and> rdbFilename db' = rdbFilename db \<and>
           rdbSaving db' = rdbSaving db \<and> aofRewriting db' = aofRewriting db \<and>
           (\<forall>k'. db_Peek db' k' = (if k' \<in> fst ` set evs then None else ((db_Peek db)(k \<mapsto> v)) k')) \<and>
           (cache_maxBytes (cache db) = 0 \<or>
            cache_nbytes (cache db) + add_delta (cache db) k v \<le> cache_maxBytes (cache db) \<longrightarrow> evs = [])"
proof -
  from cache_Add_result [of "cache db" k v] assms
  obtain c' evs where r: "cache_Add (cache db) k v = Some (c', evs)" "cache_wf c'" "cache_budget c'"
    "\<forall>e \<in> set evs. snd (snd e) = RemoveReasonEvicted"
    "\<forall>k'. cache_Peek c' k' = (if k' \<in> fst ` set evs then None else ((cache_Peek (cache db))(k \<mapsto> v)) k')"
    "cache_maxBytes (cache db) = 0 \<or>
       cache_nbytes (cache db) + add_delta (cache db) k v \<le> cache_maxBytes (cache db) \<longrightarrow> evs = []"
    unfolding db_inv_def by blast
  have ek: "evicted_keys evs = map fst evs"
    using r(4) by (simp add: evicted_keys_def filter_id_conv)
  show ?thesis
    apply (intro exI [of _ "fold onEvicted evs (db\<lparr>cache := c'\<rparr>)"] exI [of _ evs])
    using r ek by (simp add: db_Add_def fold_onEvicted db_inv_def db_Peek_def)
qed

lemma ok_Add: "ok db0 db \<Longrightarrow> \<exists>db'. db_Add db k v = Some db' \<and> ok db0 db'"
proof -
  assume a: "ok db0 db"
  then have inv: "db_inv db" by (simp add: ok_def)
  from db_Add_result [OF inv, of k v]
  obtain db' evs where r: "db_Add db k v = Some db'" "db_inv db'"
    "callbacks db' = callbacks db @ evs" "evictedKeys db' = evictedKeys db @ map fst evs"
    "\<forall>e \<in> set evs. snd (snd e) = RemoveReasonEvicted" "aofHandler db' = aofHandler db"
    by blast
  from a obtain es where es: "callbacks db = callbacks db0 @ es"
    "evictedKeys db = evictedKeys db0 @ evicted_keys es"
    by (auto simp: ok_def trace_ext_def)
  have ek: "evicted_keys evs = map fst evs"
    using r(5) by (simp add: evicted_keys_def filter_id_conv)
  have "trace_ext db0 db'"
    unfolding trace_ext_def
    by (rule exI [of _ "es @ evs"]) (simp add: r es ek evicted_keys_append)
  then show ?thesis using r a by (auto simp: ok_def)
qed

lemma ok_store_back: "ok db0 db \<Longrightarrow> \<exists>db'. store_back db k fresh v = Some db' \<and> ok db0 db'"
  unfolding store_back_def using ok_Add ok_mutate by simp

subsection \<open>Every command returns and keeps the invariant\<close>

lemmas ok_intros = ok_Get ok_Remove ok_mutate ok_AddAof ok_ttlMap ok_rdbSaving ok_aofRewriting

lemma ok_get_cmd: "ok db0 db \<Longrightarrow> ok db0 (snd (get_cmd now db args))"
  by (auto simp: get_cmd_def Let_def case_prod_unfold intro: ok_intros split: option.splits DataEntity.splits)

lemma ok_del_loop: "ok db0 db \<Longrightarrow> ok db0 (snd (del_loop ks n db))"
  by (induction ks arbitrary: n db) (auto intro: ok_intros split: option.splits)

lemma ok_del_cmd: "ok db0 db \<Longrightarrow> ok db0 (snd (del_cmd db args))"
  using ok_del_loop [of db0 db "tl args" 0]
  by (auto simp: del_cmd_def Let_def case_prod_unfold)

lemma ok_set_cmd: "ok db0 db \<Longrightarrow> \<exists>r db'. set_cmd db args = Some (r, db') \<and> ok db0 db'"
proof -
  assume a: "ok db0 db"
  from ok_Add [OF a, of "str (args ! 1)" "StringData (args ! 2)"]
  obtain db1 where "db_Add db (str (args ! 1)) (StringData (args ! 2)) = Some db1" "ok db0 db1" by blast
  then show ?thesis using a by (auto simp: set_cmd_def Let_def intro: ok_intros)
qed

lemma ok_getListForWrite: "ok db0 db \<Longrightarrow> ok db0 (snd (getListForWrite now db key))"
  by (auto simp: getListForWrite_def Let_def case_prod_unfold intro: ok_intros split: option.splits DataEntity.splits)

lemma ok_lpush: "ok db0 db \<Longrightarrow> \<exists>r db'. lpush now db args = Some (r, db') \<and> ok db0 db'"
proof -
  assume a: "ok db0 db"
  let ?key = "str (args ! 1)"
  obtain res db1 where g: "getListForWrite now db ?key = (res, db1)" by (cases "getListForWrite now db ?key")
  then have o1: "ok db0 db1" using ok_getListForWrite [OF a, of now ?key] by simp
  show ?thesis
  proof (cases res)
    case (Inl e)
    then show ?thesis using a g o1 by (auto simp: lpush_def Let_def)
  next
    case (Inr p)
    obtain l fresh where p: "p = (l, fresh)" by (cases p)
    from ok_store_back [OF o1, of ?key fresh "ListData (rev (drop 2 args) @ l)"]
    obtain db2 where "store_back db1 ?key fresh (ListData (rev (drop 2 args) @ l)) = Some db2" "ok db0 db2"
      by blast
    then show ?thesis using a g Inr p by (auto simp: lpush_def Let_def)
  qed
qed

lemma ok_rpush: "ok db0 db \<Longrightarrow> \<exists>r db'. rpush now db args = Some (r, db') \<and> ok db0 db'"
proof -
  assume a: "ok db0 db"
  let ?key = "str (args ! 1)"
  obtain res db1 where g: "getListForWrite now db ?key = (res, db1)" by (cases "getListForWrite now db ?key")
  then have o1: "ok db0 db1" using ok_getListForWrite [OF a, of now ?key] by simp
  show ?thesis
  proof (cases res)
    case (Inl e)
    then show ?thesis using a g o1 by (auto simp: rpush_def Let_def)
  next
    case (Inr p)
    obtain l fresh where p: "p = (l, fresh)" by (cases p)
    from ok_store_back [OF o1, of ?key fresh "ListData (l @ drop 2 args)"]
    obtain db2 where "store_back db1 ?key fresh (ListData (l @ drop 2 args)) = Some db2" "ok db0 db2"
      by blast
    then show ?thesis using a g Inr p by (auto simp: rpush_def Let_def)
  qed
qed

lemma ok_lpop: "ok db0 db \<Longrightarrow> \<exists>r db'. lpop now db args = Some (r, db') \<and> ok db0 db'"
proof -
  assume a: "ok db0 db"
  let ?key = "str (args ! 1)"
  let ?db1 = "snd (db_Get db ?key)"
  have o1: "ok db0 ?db1" using ok_Get [OF a] .
  have add: "\<And>l'. \<exists>db3. db_Add (db_mutate ?db1 ?key (ListData l')) ?key (ListData l') = Some db3 \<and> ok db0 db3"
    using ok_Add [OF ok_mutate [OF o1]] .
  show ?thesis
  proof (cases "length args \<noteq> 2")
    case True
    then show ?thesis using a by (simp add: lpop_def)
  next
    case False
    show ?thesis
    proof (cases "fst (db_Get db ?key)")
      case None
      then show ?thesis using False o1 by (simp add: lpop_def Let_def case_prod_unfold)
    next
      case (Some v)
      show ?thesis
      proof (cases "past_due now db ?key")
        case True
        then show ?thesis
          using False Some ok_Remove [OF o1] by (simp add: lpop_def Let_def case_prod_unfold)
      next
        case live: False
        show ?thesis
        proof (cases v)
          case (ListData l)
          show ?thesis
          proof (cases l)
            case Nil
            then show ?thesis
              using False Some live ListData o1 by (simp add: lpop_def Let_def case_prod_unfold)
          next
            case (Cons front l')
            show ?thesis
            proof (cases "l' = []")
              case True
              then show ?thesis
                using False Some live ListData Cons ok_Remove [OF ok_mutate [OF o1]]
                by (simp add: lpop_def Let_def case_prod_unfold)
            next
              case ne: False
              from add [of l'] obtain db3 where
                "db_Add (db_mutate ?db1 ?key (ListData l')) ?key (ListData l') = Some db3" "ok db0 db3"
                by blast
              then show ?thesis
                using False Some live ListData Cons ne
                by (simp add: lpop_def Let_def case_prod_unfold)
            qed
          qed
        qed (use False Some live o1 in \<open>simp_all add: lpop_def Let_def case_prod_unfold\<close>)
      qed
    qed
  qed
qed

lemma ok_rpop: "ok db0 db \<Longrightarrow> \<exists>r db'. rpop now db args = Some (r, db') \<and> ok db0 db'"
proof -
  assume a: "ok db0 db"
  let ?key = "str (args ! 1)"
  let ?db1 = "snd (db_Get db ?key)"
  have o1: "ok db0 ?db1" using ok_Get [OF a] .
  have add: "\<And>l'. \<exists>db3. db_Add (db_mutate ?db1 ?key (ListData l')) ?key (ListData l') = Some db3 \<and> ok db0 db3"
    using ok_Add [OF ok_mutate [OF o1]] .
  show ?thesis
  proof (cases "length args \<noteq> 2")
    case True
    then show ?thesis using a by (simp add: rpop_def)
  next
    case False
    show ?thesis
    proof (cases "fst (db_Get db ?key)")
      case None
      then show ?thesis using False o1 by (simp add: rpop_def Let_def case_prod_unfold)
    next
      case (Some v)
      show ?thesis
      proof (cases "past_due now db ?key")
        case True
        then show ?thesis
          using False Some ok_Remove [OF o1] by (simp add: rpop_def Let_def case_prod_unfold)
      next
        case live: False
        show ?thesis
        proof (cases v)
          case (ListData l)
          show ?thesis
          proof (cases "l = []")
            case True
            then show ?thesis
              using False Some live ListData o1 by (simp add: rpop_def Let_def case_prod_unfold)
          next
            case nl: False
            show ?thesis
            proof (cases "butlast l = []")
              case True
              then show ?thesis
                using False Some live ListData nl ok_Remove [OF ok_mutate [OF o1]]
                by (simp add: rpop_def Let_def case_prod_unfold)
            next
              case ne: False
              from add [of "butlast l"] obtain db3 where
                "db_Add (db_mutate ?db1 ?key (ListData (butlast l))) ?key (ListData (butlast l)) = Some db3" "ok db0 db3"
                by blast
              then show ?thesis
                using False Some live ListData nl ne
                by (simp add: rpop_def Let_def case_prod_unfold)
            qed
          qed
        qed (use False Some live o1 in \<open>simp_all add: rpop_def Let_def case_prod_unfold\<close>)
      qed
    qed
  qed
qed

lemma ok_llen: "ok db0 db \<Longrightarrow> ok db0 (snd (llen now db args))"
  by (auto simp: llen_def Let_def case_prod_unfold intro: ok_intros split: option.splits DataEntity.splits)

lemma ok_lrange: "ok db0 db \<Longrightarrow> ok db0 (snd (lrange now db args))"
  by (auto simp: lrange_def Let_def case_prod_unfold intro: ok_intros split: option.splits DataEntity.splits)


lemma ok_getHash: "ok db0 db \<Longrightarrow> ok db0 (snd (getHash now db key))"
  by (auto simp: getHash_def Let_def case_prod_unfold intro: ok_intros split: option.splits DataEntity.splits)

lemma ok_getSet: "ok db0 db \<Longrightarrow> ok db0 (snd (getSet now db key))"
  by (auto simp: getSet_def Let_def case_prod_unfold intro: ok_intros split: option.splits DataEntity.splits)

lemma ok_hset_store: "ok db0 db \<Longrightarrow> \<exists>r db'. hset_store db key args h fresh = Some (r, db') \<and> ok db0 db'"
proof -
  assume a: "ok db0 db"
  obtain h' cnt where l: "hset_loop (drop 2 args) h 0 = (h', cnt)" by (cases "hset_loop (drop 2 args) h 0")
  from ok_store_back [OF a, of key fresh "HashData h'"]
  obtain db1 where "store_back db key fresh (HashData h') = Some db1" "ok db0 db1" by blast
  then show ?thesis using l by (simp add: hset_store_def)
qed

lemma ok_hset: "ok db0 db \<Longrightarrow> \<exists>r db'. hset now db args = Some (r, db') \<and> ok db0 db'"
proof -
  assume a: "ok db0 db"
  let ?key = "str (args ! 1)"
  obtain ho db1 where g: "getHash now db ?key = (ho, db1)" by (cases "getHash now db ?key")
  then have o1: "ok db0 db1" using ok_getHash [OF a, of now ?key] by simp
  let ?db2 = "snd (db_Get db1 ?key)"
  have o2: "ok db0 ?db2" using ok_Get [OF o1] .
  have o3: "ok db0 (AddAof [Some ''del'', Some ?key] (db_Remove ?db2 ?key))"
    using ok_AddAof [OF ok_Remove [OF o2]] .
  show ?thesis
  proof (cases "length args < 4 \<or> length args mod 2 \<noteq> 0")
    case True
    then show ?thesis using a by (auto simp: hset_def)
  next
    case False
    show ?thesis
    proof (cases ho)
      case (Some h)
      then show ?thesis
        using False g ok_hset_store [OF o1, of ?key args h False] by (simp add: hset_def Let_def)
    next
      case None
      show ?thesis
        using False g None o2 ok_hset_store [OF o2, of ?key args "[]" True]
          ok_hset_store [OF o3, of ?key args "[]" True]
        by (auto simp: hset_def Let_def case_prod_unfold split: option.splits)
    qed
  qed
qed

lemma ok_hget: "ok db0 db \<Longrightarrow> ok db0 (snd (hget now db args))"
proof -
  assume a: "ok db0 db"
  let ?key = "str (args ! 1)"
  obtain ho db1 where g: "getHash now db ?key = (ho, db1)" by (cases "getHash now db ?key")
  then have o1: "ok db0 db1" using ok_getHash [OF a, of now ?key] by simp
  show ?thesis
    using a g o1 ok_Get [OF o1, of ?key]
    by (auto simp: hget_def Let_def case_prod_unfold split: option.splits)
qed

lemma ok_hgetall: "ok db0 db \<Longrightarrow> ok db0 (snd (hgetall now db args))"
proof -
  assume a: "ok db0 db"
  let ?key = "str (args ! 1)"
  obtain ho db1 where g: "getHash now db ?key = (ho, db1)" by (cases "getHash now db ?key")
  then have o1: "ok db0 db1" using ok_getHash [OF a, of now ?key] by simp
  show ?thesis
    using a g o1 ok_Get [OF o1, of ?key]
    by (auto simp: hgetall_def Let_def case_prod_unfold split: option.splits)
qed

lemma ok_hdel: "ok db0 db \<Longrightarrow> \<exists>r db'. hdel now db args = Some (r, db') \<and> ok db0 db'"
proof -
  assume a: "ok db0 db"
  let ?key = "str (args ! 1)"
  obtain ho db1 where g: "getHash now db ?key = (ho, db1)" by (cases "getHash now db ?key")
  then have o1: "ok db0 db1" using ok_getHash [OF a, of now ?key] by simp
  show ?thesis
  proof (cases "length args < 3")
    case True
    then show ?thesis using a by (auto simp: hdel_def)
  next
    case False
    show ?thesis
    proof (cases ho)
      case None
      then show ?thesis
        using False g ok_Get [OF o1, of ?key]
        by (auto simp: hdel_def Let_def case_prod_unfold split: option.splits)
    next
      case (Some h)
      obtain h' cnt where l: "hdel_loop (drop 2 args) h 0 = (h', cnt)" by (cases "hdel_loop (drop 2 args) h 0")
      let ?db2 = "db_mutate db1 ?key (HashData h')"
      have o2: "ok db0 ?db2" using ok_mutate [OF o1] .
      from ok_Add [OF o2, of ?key "HashData h'"]
      obtain db3 where "db_Add ?db2 ?key (HashData h') = Some db3" "ok db0 db3" by blast
      then show ?thesis
        using False g Some l ok_Remove [OF o2, of ?key]
        by (auto simp: hdel_def Let_def)
    qed
  qed
qed

lemma ok_sadd_store: "ok db0 db \<Longrightarrow> \<exists>r db'. sadd_store db key args m fresh = Some (r, db') \<and> ok db0 db'"
proof -
  assume a: "ok db0 db"
  obtain m' added where l: "sadd_loop (drop 2 args) m 0 = (m', added)" by (cases "sadd_loop (drop 2 args) m 0")
  from ok_store_back [OF a, of key fresh "SetData m'"]
  obtain db1 where "store_back db key fresh (SetData m') = Some db1" "ok db0 db1" by blast
  then show ?thesis using l a by (auto simp: sadd_store_def)
qed

lemma ok_sadd: "ok db0 db \<Longrightarrow> \<exists>r db'. sadd now db args = Some (r, db') \<and> ok db0 db'"
proof -
  assume a: "ok db0 db"
  let ?key = "str (args ! 1)"
  obtain so db1 where g: "getSet now db ?key = (so, db1)" by (cases "getSet now db ?key")
  then have o1: "ok db0 db1" using ok_getSet [OF a, of now ?key] by simp
  let ?db2 = "snd (db_Get db1 ?key)"
  have o2: "ok db0 ?db2" using ok_Get [OF o1] .
  have o3: "ok db0 (db_Remove ?db2 ?key)" using ok_Remove [OF o2] .
  show ?thesis
  proof (cases "length args < 3")
    case True
    then show ?thesis using a by (auto simp: sadd_def)
  next
    case False
    show ?thesis
    proof (cases so)
      case (Some m)
      then show ?thesis
        using False g ok_sadd_store [OF o1, of ?key args m False] by (simp add: sadd_def Let_def)
    next
      case None
      show ?thesis
        using False g None o2 ok_sadd_store [OF o2, of ?key args "[]" True]
          ok_sadd_store [OF o3, of ?key args "[]" True]
        by (auto simp: sadd_def Let_def case_prod_unfold split: option.splits)
    qed
  qed
qed

lemma ok_srem: "ok db0 db \<Longrightarrow> \<exists>r db'. srem now db args = Some (r, db') \<and> ok db0 db'"
proof -
  assume a: "ok db0 db"
  let ?key = "str (args ! 1)"
  obtain so db1 where g: "getSet now db ?key = (so, db1)" by (cases "getSet now db ?key")
  then have o1: "ok db0 db1" using ok_getSet [OF a, of now ?key] by simp
  show ?thesis
  proof (cases "length args < 3")
    case True
    then show ?thesis using a by (auto simp: srem_def)
  next
    case False
    show ?thesis
    proof (cases so)
      case None
      then show ?thesis
        using False g ok_Get [OF o1, of ?key]
        by (auto simp: srem_def Let_def case_prod_unfold split: option.splits)
    next
      case (Some m)
      obtain m' removed where l: "srem_loop (drop 2 args) m 0 = (m', removed)"
        by (cases "srem_loop (drop 2 args) m 0")
      let ?db2 = "db_mutate db1 ?key (SetData m')"
      have o2: "ok db0 ?db2" using ok_mutate [OF o1] .
      from ok_Add [OF o2, of ?key "SetData m'"]
      obtain db3 where "db_Add ?db2 ?key (SetData m') = Some db3" "ok db0 db3" by blast
      then show ?thesis
        using False g Some l ok_Remove [OF o2, of ?key]
        by (auto simp: srem_def Let_def)
    qed
  qed
qed

lemma ok_scard: "ok db0 db \<Longrightarrow> ok db0 (snd (scard now db args))"
proof -
  assume a: "ok db0 db"
  let ?key = "str (args ! 1)"
  obtain so db1 where g: "getSet now db ?key = (so, db1)" by (cases "getSet now db ?key")
  then have o1: "ok db0 db1" using ok_getSet [OF a, of now ?key] by simp
  show ?thesis
    using a g o1 ok_Get [OF o1, of ?key]
    by (auto simp: scard_def Let_def case_prod_unfold split: option.splits)
qed

lemma ok_smembers: "ok db0 db \<Longrightarrow> ok db0 (snd (smembers now db args))"
proof -
  assume a: "ok db0 db"
  let ?key = "str (args ! 1)"
  obtain so db1 where g: "getSet now db ?key = (so, db1)" by (cases "getSet now db ?key")
  then have o1: "ok db0 db1" using ok_getSet [OF a, of now ?key] by simp
  show ?thesis
    using a g o1 ok_Get [OF o1, of ?key]
    by (auto simp: smembers_def Let_def case_prod_unfold split: option.splits)
qed

lemma ok_expire: "ok db0 db \<Longrightarrow> ok db0 (snd (expire now db args))"
  by (auto simp: expire_def Let_def intro: ok_intros split: option.splits)

lemma ok_pexpireat: "ok db0 db \<Longrightarrow> ok db0 (snd (pexpireat now db args))"
  by (auto simp: pexpireat_def Let_def intro: ok_intros split: option.splits)

lemma ok_ttl: "ok db0 db \<Longrightarrow> ok db0 (snd (ttl now db args))"
  by (auto simp: ttl_def Let_def intro: ok_intros split: option.splits)

lemma ok_persist: "ok db0 db \<Longrightarrow> ok db0 (snd (persist db args))"
  by (auto simp: persist_def Let_def intro: ok_intros split: option.splits)

lemma ok_purge_fold:
  "ok db0 db \<Longrightarrow> ok db0 (fold (\<lambda>(key, t) d. if \<not> now < t then db_Remove d key else d) xs db)"
proof (induction xs arbitrary: db)
  case Nil
  then show ?case by simp
next
  case (Cons a xs)
  obtain key t where a: "a = (key, t)" by (cases a)
  show ?case
    using Cons.IH [OF Cons.prems] Cons.IH [OF ok_Remove [OF Cons.prems, of key]]
    by (simp add: a)
qed

lemma ok_purgeExpiredAll: "ok db0 db \<Longrightarrow> ok db0 (purgeExpiredAll now db)"
  unfolding purgeExpiredAll_def by (rule ok_purge_fold)

lemma ok_snapshotEntries: "ok db0 db \<Longrightarrow> ok db0 (snd (snapshotEntries now db))"
  by (simp add: snapshotEntries_def Let_def ok_purgeExpiredAll)

lemma ok_save: "ok db0 db \<Longrightarrow> ok db0 (snd (save now io db))"
  using ok_snapshotEntries [of db0 db now]
  by (auto simp: save_def Let_def case_prod_unfold split: option.splits)

lemma ok_bgsave: "ok db0 db \<Longrightarrow> ok db0 (snd (bgsave now io db))"
proof -
  assume a: "ok db0 db"
  show ?thesis
    using a ok_snapshotEntries [OF ok_rdbSaving [OF a, of True], of now]
    by (auto simp: bgsave_def Let_def case_prod_unfold split: option.splits)
qed

lemma ok_rewriteaof: "ok db0 db \<Longrightarrow> ok db0 (snd (rewriteaof now io db))"
proof -
  assume a: "ok db0 db"
  show ?thesis
    using a ok_aofRewriting [OF ok_snapshotEntries [OF a, of now], of False] ok_aofRewriting [OF a, of False]
    by (auto simp: rewriteaof_def Let_def case_prod_unfold split: option.splits)
qed

lemma ok_bgrewriteaof: "ok db0 db \<Longrightarrow> ok db0 (snd (bgrewriteaof now io db))"
proof -
  assume a: "ok db0 db"
  show ?thesis
    using a ok_snapshotEntries [OF ok_aofRewriting [OF a, of True], of now] ok_aofRewriting [OF a, of False]
    by (auto simp: bgrewriteaof_def Let_def case_prod_unfold split: option.splits)
qed

lemma ok_execInternal:
  assumes "ok db0 db"
  shows "\<exists>r db'. execInternal now io db cmd = Some (r, db') \<and> ok db0 db'"
proof -
  note a = assms
  have opt: "\<And>x. ok db0 (snd x) \<Longrightarrow> \<exists>r db'. Some x = Some (r, db') \<and> ok db0 db'"
    by (metis prod.collapse)
  show ?thesis
    unfolding execInternal_def Let_def
    using a ok_set_cmd [OF a] ok_lpush [OF a] ok_rpush [OF a] ok_lpop [OF a] ok_rpop [OF a]
      ok_hset [OF a] ok_hdel [OF a] ok_sadd [OF a] ok_srem [OF a]
      opt [OF ok_get_cmd [OF a]] opt [OF ok_del_cmd [OF a]] opt [OF ok_lrange [OF a]]
      opt [OF ok_llen [OF a]] opt [OF ok_hget [OF a]] opt [OF ok_hgetall [OF a]]
      opt [OF ok_smembers [OF a]] opt [OF ok_scard [OF a]] opt [OF ok_expire [OF a]]
      opt [OF ok_pexpireat [OF a]] opt [OF ok_ttl [OF a]] opt [OF ok_persist [OF a]]
      opt [OF ok_save [OF a]] opt [OF ok_bgsave [OF a]] opt [OF ok_rewriteaof [OF a]]
      opt [OF ok_bgrewriteaof [OF a]]
    by auto
qed

subsection \<open>Evictions in the append log\<close>

lemma AddAof_fields:
  "callbacks (AddAof args db) = callbacks db \<and> evictedKeys (AddAof args db) = evictedKeys db \<and>
   ttlMap (AddAof args db) = ttlMap db \<and> cache (AddAof args db) = cache db \<and>
   aofHandler (AddAof args db) = map_option (\<lambda>l. l @ [args]) (aofHandler db)"
  by (simp add: AddAof_def)

lemma appendAof_fields:
  "callbacks (appendAof db cmd res) = callbacks db \<and> evictedKeys (appendAof db cmd res) = evictedKeys db \<and>
   ttlMap (appendAof db cmd res) = ttlMap db \<and> cache (appendAof db cmd res) = cache db \<and>
   (aofHandler (appendAof db cmd res) = None \<longleftrightarrow> aofHandler db = None)"
  by (auto simp: appendAof_def Let_def AddAof_fields split: reply.splits option.splits)

lemma fold_AddAof_DEL:
  "callbacks (fold (\<lambda>key. AddAof (DEL_record key)) ks db) = callbacks db \<and>
   evictedKeys (fold (\<lambda>key. AddAof (DEL_record key)) ks db) = evictedKeys db \<and>
   ttlMap (fold (\<lambda>key. AddAof (DEL_record key)) ks db) = ttlMap db \<and>
   cache (fold (\<lambda>key. AddAof (DEL_record key)) ks db) = cache db \<and>
   aofHandler (fold (\<lambda>key. AddAof (DEL_record key)) ks db) =
     map_option (\<lambda>l. l @ map DEL_record ks) (aofHandler db)"
proof (induction ks arbitrary: db)
  case Nil
  then show ?case by (simp add: option.map_ident)
next
  case (Cons k ks)
  show ?case
    using Cons [of "AddAof (DEL_record k) db"]
    by (simp add: AddAof_fields option.map_comp comp_def)
qed

lemma appendAof_write:
  assumes "isWriteCommand cmd"
  shows "aofHandler (appendAof db cmd res) = map_option (\<lambda>l. l @ [cmd]) (aofHandler db)"
proof -
  have n: "ToLower (str (cmd ! 0)) \<in> set writeCommands" and ne: "cmd \<noteq> []"
    using assms by (simp_all add: isWriteCommand_def)
  then have "ToLower (str (cmd ! 0)) \<noteq> ''expire''" "ToLower (str (cmd ! 0)) \<noteq> ''persist''"
    by (auto simp: writeCommands_def)
  then show ?thesis
    using assms ne by (simp add: appendAof_def Let_def AddAof_fields)
qed

text \<open>
  Claim C1. A command that runs with the append log on, in a state that satisfies the
  invariant, returns. Let \<open>evs\<close> be the calls of the removal callback that it made and
  \<open>own\<close> the log after \<open>appendAof\<close> has written the command's own record (for a write
  command, the command itself, as the last record). If the reply is not an error, the log
  after the request is \<open>own\<close> followed by one \<open>DEL key\<close> for each call in \<open>evs\<close> whose
  reason is evicted, in the order of the calls.
\<close>

theorem C1_eviction_durability:
  assumes inv: "db_inv db" and aof: "aofHandler db \<noteq> None"
  shows "\<exists>res db1 db' evs own.
           execInternal now io (db\<lparr>evictedKeys := []\<rparr>) cmd = Some (res, db1) \<and>
           background_step now io False cmd db = Some (res, db') \<and>
           callbacks db1 = callbacks db @ evs \<and>
           aofHandler (appendAof db1 cmd res) = Some own \<and>
           (isWriteCommand cmd \<longrightarrow> aofHandler db1 = Some (butlast own) \<and> last own = cmd \<and> own \<noteq> []) \<and>
           (\<not> isError res \<longrightarrow> aofHandler db' =
              Some (own @ map (\<lambda>e. [Some ''DEL'', Some (fst e)])
                            (filter (\<lambda>e. snd (snd e) = RemoveReasonEvicted) evs)))"
proof -
  let ?db0 = "db\<lparr>evictedKeys := []\<rparr>"
  have i0: "db_inv ?db0" using inv by (simp add: db_inv_def)
  from ok_execInternal [OF ok_refl [OF i0], of now io cmd]
  obtain res db1 where ex: "execInternal now io ?db0 cmd = Some (res, db1)" and o: "ok ?db0 db1"
    by blast
  from o obtain evs where evs: "callbacks db1 = callbacks db @ evs" "evictedKeys db1 = evicted_keys evs"
    by (auto simp: ok_def trace_ext_def)
  have a1: "aofHandler db1 \<noteq> None" using o aof by (simp add: ok_def)
  then obtain own where own: "aofHandler (appendAof db1 cmd res) = Some own"
    using appendAof_fields [of db1 cmd res] by auto
  have w: "isWriteCommand cmd \<longrightarrow> aofHandler db1 = Some (butlast own) \<and> last own = cmd \<and> own \<noteq> []"
    using own a1 appendAof_write [of cmd db1 res] by auto
  have bs: "background_step now io False cmd db =
      Some (res, if \<not> isError res
                 then fold (\<lambda>key. AddAof (DEL_record key)) (evictedKeys db1) (appendAof db1 cmd res)
                 else db1)"
    using ex a1 by (simp add: background_step_def)
  have recs: "map DEL_record (evicted_keys evs) =
      map (\<lambda>e. [Some ''DEL'', Some (fst e)]) (filter (\<lambda>e. snd (snd e) = RemoveReasonEvicted) evs)"
    by (simp add: evicted_keys_def DEL_record_def comp_def)
  show ?thesis
    apply (rule exI [of _ res], rule exI [of _ db1])
    apply (rule exI [of _ "if \<not> isError res
                 then fold (\<lambda>key. AddAof (DEL_record key)) (evictedKeys db1) (appendAof db1 cmd res)
                 else db1"])
    apply (rule exI [of _ evs], rule exI [of _ own])
    unfolding recs [symmetric]
    using ex bs evs own w by (simp add: fold_AddAof_DEL)
qed


lemma ex_evict_db_inv: "db_inv ex_evict_db"
  by (simp add: db_inv_def ex_evict_db_def lru_wf_def cache_budget_def)

lemma ex_evict_db_aof: "aofHandler ex_evict_db \<noteq> None"
  by (simp add: ex_evict_db_def)

lemma ex_evict_run:
  "map_option (\<lambda>(r, d). (r, aofHandler d, evictedKeys d)) (background_step 0 ex_io False ex_set_k2 ex_evict_db) =
     Some (StatusReply ''OK'',
           Some [[Some ''SET'', Some ''k1'', Some ''0123456789''],
                 [Some ''SET'', Some ''k2'', Some ''abcdefghij''],
                 [Some ''DEL'', Some ''k1'']],
           [''k1''])"
  by code_simp

theorem C1_eviction_durability_witness:
  "db_inv ex_evict_db \<and> aofHandler ex_evict_db \<noteq> None \<and>
   (\<exists>res db1 db' evs own.
           execInternal 0 ex_io (ex_evict_db\<lparr>evictedKeys := []\<rparr>) ex_set_k2 = Some (res, db1) \<and>
           background_step 0 ex_io False ex_set_k2 ex_evict_db = Some (res, db') \<and>
           callbacks db1 = callbacks ex_evict_db @ evs \<and>
           aofHandler (appendAof db1 ex_set_k2 res) = Some own \<and>
           (isWriteCommand ex_set_k2 \<longrightarrow> aofHandler db1 = Some (butlast own) \<and> last own = ex_set_k2 \<and> own \<noteq> []) \<and>
           (\<not> isError res \<longrightarrow> aofHandler db' =
              Some (own @ map (\<lambda>e. [Some ''DEL'', Some (fst e)])
                            (filter (\<lambda>e. snd (snd e) = RemoveReasonEvicted) evs)))) \<and>
   map_option (\<lambda>(r, d). (r, aofHandler d, evictedKeys d)) (background_step 0 ex_io False ex_set_k2 ex_evict_db) =
     Some (StatusReply ''OK'',
           Some [[Some ''SET'', Some ''k1'', Some ''0123456789''],
                 [Some ''SET'', Some ''k2'', Some ''abcdefghij''],
                 [Some ''DEL'', Some ''k1'']],
           [''k1''])"
  using C1_eviction_durability [OF ex_evict_db_inv ex_evict_db_aof, of 0 ex_io ex_set_k2]
    ex_evict_db_inv ex_evict_db_aof ex_evict_run
  by blast

subsection \<open>The log record of \<open>EXPIRE\<close>\<close>

lemma isError_IntReply [simp]: "\<not> isError (MakeIntReply n)"
  by (simp add: isError_def MakeIntReply_def)

text \<open>
  Claim C2. One turn of the command loop for \<open>EXPIRE key seconds\<close> with the append log
  on, at the instant \<open>now\<close>. The reply is 0 when the key is absent and the log is left
  as it was. The reply is 1 otherwise: when \<open>seconds\<close> is zero or negative the key and
  its expiration entry are removed and the one record appended is \<open>DEL key\<close>; when
  \<open>seconds\<close> is positive the expiration table holds \<open>now + seconds\<close> for the key and the
  one record appended is \<open>PEXPIREAT key ms\<close>, \<open>ms\<close> being that instant in milliseconds.
\<close>

theorem C2_expire_log_record:
  assumes aof: "aofHandler db = Some log"
    and cmd: "cmd = [c, k, a]" and name: "ToLower (str c) = ''expire''"
    and parse: "ParseInt (str a) = Some seconds"
  shows "\<exists>db'. background_step now io False cmd db =
               Some (MakeIntReply (if db_Peek db (str k) = None then 0 else 1), db') \<and>
           (db_Peek db (str k) = None \<longrightarrow> aofHandler db' = Some log) \<and>
           (db_Peek db (str k) \<noteq> None \<and> sint seconds \<le> 0 \<longrightarrow>
              db_Peek db' (str k) = None \<and> map_of (ttlMap db') (str k) = None \<and>
              aofHandler db' = Some (log @ [[Some ''DEL'', Some (str k)]])) \<and>
           (db_Peek db (str k) \<noteq> None \<and> 0 < sint seconds \<longrightarrow>
              map_of (ttlMap db') (str k) = Some (now + seconds_Duration seconds) \<and>
              aofHandler db' =
                Some (log @ [[Some ''PEXPIREAT'', Some (str k),
                              Some (FormatInt (word_of_int (UnixMilli (now + seconds_Duration seconds))))]]))"
proof -
  let ?db0 = "db\<lparr>evictedKeys := []\<rparr>"
  let ?c = "[c, k, a]"
  have ex: "execInternal now io ?db0 ?c = Some (expire now ?db0 ?c)"
    using name by (simp add: execInternal_def)
  have pk: "db_Peek ?db0 (str k) = db_Peek db (str k)" by (simp add: db_Peek_def)
  show ?thesis
  proof (cases "db_Peek db (str k) = None")
    case True
    then have e: "expire now ?db0 ?c = (MakeIntReply 0, ?db0)"
      using parse pk by (auto simp add: expire_def Let_def)
    show ?thesis
      using True aof cmd name
      by (auto simp add: background_step_def ex e appendAof_def MakeIntReply_def Let_def isError_def)
  next
    case False
    show ?thesis
    proof (cases "sint seconds \<le> 0")
      case True
      let ?db1 = "db_Remove ?db0 (str k)"
      have e: "expire now ?db0 ?c = (MakeIntReply 1, ?db1)"
        using parse pk False True by (auto simp add: expire_def Let_def)
      note rf = db_Remove_fields [of ?db0 "str k"]
      have t: "map_of (ttlMap ?db1) (str k) = None"
        using rf pk False by (simp add: delete_conv')
      have "aofHandler ?db1 = Some log" "evictedKeys ?db1 = []" "db_Peek ?db1 (str k) = None"
        using rf aof by simp_all
      then show ?thesis
        using False True cmd name t
        by (auto simp add: background_step_def ex e appendAof_def MakeIntReply_def AddAof_def DEL_record_def Let_def db_Peek_def isError_def)
    next
      case pos: False
      let ?t = "now + seconds_Duration seconds"
      let ?db1 = "?db0\<lparr>ttlMap := AList.update (str k) ?t (ttlMap ?db0)\<rparr>"
      have e: "expire now ?db0 ?c = (MakeIntReply 1, ?db1)"
        using parse pk False pos by (auto simp add: expire_def Let_def)
      have t: "map_of (ttlMap ?db1) (str k) = Some ?t" by (simp add: update_conv')
      show ?thesis
        using False pos cmd name t aof
        by (auto simp add: background_step_def ex e appendAof_def MakeIntReply_def AddAof_def Let_def db_Peek_def isError_def)
    qed
  qed
qed

lemma ex_evict_db_log:
  "aofHandler ex_evict_db = Some [[Some ''SET'', Some ''k1'', Some ''0123456789'']]"
  by (simp add: ex_evict_db_def)

lemma digit_chars:
  "digit_char 0 = CHR ''0''" "digit_char 1 = CHR ''1''" "digit_char 2 = CHR ''2''"
  "digit_char 3 = CHR ''3''" "digit_char 4 = CHR ''4''" "digit_char 5 = CHR ''5''"
  "digit_char 6 = CHR ''6''" "digit_char 7 = CHR ''7''" "digit_char 8 = CHR ''8''"
  "digit_char 9 = CHR ''9''"
  by code_simp+

lemma ParseInt_examples: "ParseInt ''5'' = Some 5" "ParseInt ''0'' = Some 0"
  by (simp_all add: ParseInt_def Atoi_def ParseUint_def is_digit_def digit_val_def)

lemma FormatInt_5000: "FormatInt 5000 = ''5000''"
  by (simp add: FormatInt_def Itoa_def digits10.simps [of 5000] digits10.simps [of 500]
      digits10.simps [of 50] digits10.simps [of 5] digit_chars)

lemma ex_expire_facts:
  "ToLower (str (Some ''EXPIRE'')) = ''expire''"
  "ParseInt (str (Some ''5'')) = Some 5"
  "ParseInt (str (Some ''0'')) = Some 0"
  "db_Peek ex_evict_db (str (Some ''k1'')) = Some (StringData (Some ''0123456789''))"
  "db_Peek ex_evict_db (str (Some ''k2'')) = None"
  "FormatInt (word_of_int (UnixMilli (0 + seconds_Duration 5))) = ''5000''"
  "str (Some ''k1'') = ''k1''"
        apply code_simp
       apply (simp add: str_def ParseInt_examples)
      apply (simp add: str_def ParseInt_examples)
     apply code_simp
    apply code_simp
   apply (simp add: seconds_Duration_def UnixMilli_def FormatInt_5000)
  apply (simp add: str_def)
  done

theorem C2_expire_log_record_witness:
  "(\<exists>db'. background_step 0 ex_io False [Some ''EXPIRE'', Some ''k1'', Some ''5''] ex_evict_db =
            Some (MakeIntReply 1, db') \<and>
          map_of (ttlMap db') ''k1'' = Some 5000000000 \<and>
          aofHandler db' =
            Some [[Some ''SET'', Some ''k1'', Some ''0123456789''],
                  [Some ''PEXPIREAT'', Some ''k1'', Some ''5000'']]) \<and>
   (\<exists>db'. background_step 0 ex_io False [Some ''EXPIRE'', Some ''k1'', Some ''0''] ex_evict_db =
            Some (MakeIntReply 1, db') \<and>
          db_Peek db' ''k1'' = None \<and> map_of (ttlMap db') ''k1'' = None \<and>
          aofHandler db' =
            Some [[Some ''SET'', Some ''k1'', Some ''0123456789''],
                  [Some ''DEL'', Some ''k1'']]) \<and>
   (\<exists>db'. background_step 0 ex_io False [Some ''EXPIRE'', Some ''k2'', Some ''5''] ex_evict_db =
            Some (MakeIntReply 0, db') \<and>
          aofHandler db' = Some [[Some ''SET'', Some ''k1'', Some ''0123456789'']])"
  (is "?A \<and> ?B \<and> ?C")
proof -
  have sd: "seconds_Duration 5 = 5000000000" by (simp add: seconds_Duration_def)
  have a: ?A
    using C2_expire_log_record [where k = "Some ''k1''" and now = 0 and io = ex_io,
        OF ex_evict_db_log refl ex_expire_facts(1) ex_expire_facts(2)]
      ex_expire_facts(4-7)
    by (simp add: sd)
  have b: ?B
    using C2_expire_log_record [where k = "Some ''k1''" and now = 0 and io = ex_io,
        OF ex_evict_db_log refl ex_expire_facts(1) ex_expire_facts(3)]
      ex_expire_facts(4-7)
    by (simp add: sd)
  have c: ?C
    using C2_expire_log_record [where k = "Some ''k2''" and now = 0 and io = ex_io,
        OF ex_evict_db_log refl ex_expire_facts(1) ex_expire_facts(2)]
      ex_expire_facts(4-7)
    by (simp add: sd)
  from a b c show ?thesis by (intro conjI)
qed

subsection \<open>Removing the last element of a container\<close>

lemma filter_delete:
  "filter P (AList.delete k h) = filter (\<lambda>p. fst p \<noteq> k \<and> P p) h"
  by (induction h) auto

lemma hdel_loop_filter:
  "fst (hdel_loop fs h cnt) = filter (\<lambda>p. fst p \<notin> str ` set fs) h"
proof (induction fs arbitrary: h cnt)
  case Nil
  then show ?case by simp
next
  case (Cons f fs)
  show ?case
  proof (cases "map_of h (str f) = None")
    case True
    then have "str f \<notin> fst ` set h" by (simp add: map_of_eq_None_iff)
    then have "filter (\<lambda>p. fst p \<notin> str ` set (f # fs)) h = filter (\<lambda>p. fst p \<notin> str ` set fs) h"
      by (intro filter_cong) force+
    then show ?thesis using True Cons.IH [of h cnt] by simp
  next
    case False
    have "filter (\<lambda>p. fst p \<notin> str ` set (f # fs)) h =
          filter (\<lambda>p. fst p \<notin> str ` set fs) (AList.delete (str f) h)"
      unfolding filter_delete by (intro filter_cong) auto
    then show ?thesis using False Cons.IH [of "AList.delete (str f) h" "cnt + 1"] by simp
  qed
qed

lemma srem_loop_filter:
  "fst (srem_loop xs m removed) = filter (\<lambda>x. x \<notin> str ` set xs) m"
proof (induction xs arbitrary: m removed)
  case Nil
  then show ?case by simp
next
  case (Cons x xs)
  show ?case
  proof (cases "str x \<in> set m")
    case False
    then have "filter (\<lambda>y. y \<notin> str ` set (x # xs)) m = filter (\<lambda>y. y \<notin> str ` set xs) m"
      by (intro filter_cong) auto
    then show ?thesis using False Cons.IH [of m removed] by simp
  next
    case True
    have "filter (\<lambda>y. y \<notin> str ` set (x # xs)) m =
          filter (\<lambda>y. y \<notin> str ` set xs) (removeAll (str x) m)"
      by (auto simp: removeAll_filter_not_eq intro: filter_cong)
    then show ?thesis using True Cons.IH [of "removeAll (str x) m" "removed + 1"] by simp
  qed
qed

lemma removed_key_gone:
  assumes "db_Peek db key = Some v0"
  shows "db_Peek (db_Remove (db_mutate (snd (db_Get db key)) key v) key) key = None \<and>
         map_of (ttlMap (db_Remove (db_mutate (snd (db_Get db key)) key v) key)) key = None"
  using assms db_Get_fields [of db key] db_mutate_fields [of "snd (db_Get db key)" key v]
    db_Remove_fields [of "db_mutate (snd (db_Get db key)) key v" key]
  by (simp add: delete_conv')

lemma get_cmd_missing:
  "db_Peek db (str k) = None \<Longrightarrow> fst (get_cmd now db [g, k]) = NullBulkReply"
  using db_Get_fields [of db "str k"]
  by (simp add: get_cmd_def Let_def case_prod_unfold)

text \<open>
  Claim C10. For a key that is not past due: \<open>LPOP\<close> and \<open>RPOP\<close> on a list of one
  element return that element, \<open>HDEL\<close> with arguments that cover every field of the hash
  and \<open>SREM\<close> with arguments that cover every member of the set return their count, and
  each of them leaves the cache without the key and the expiration table without an
  entry for it, so that a later \<open>GET\<close> of the key replies with the null bulk.
\<close>

theorem C10_last_element_removes_key:
  assumes live: "\<not> past_due now db (str k)"
  shows "(db_Peek db (str k) = Some (ListData [x]) \<longrightarrow>
            (\<exists>db'. lpop now db [c, k] = Some (MakeBulkReply x, db') \<and>
                   db_Peek db' (str k) = None \<and> map_of (ttlMap db') (str k) = None \<and>
                   fst (get_cmd later db' [g, k]) = NullBulkReply) \<and>
            (\<exists>db'. rpop now db [c, k] = Some (MakeBulkReply x, db') \<and>
                   db_Peek db' (str k) = None \<and> map_of (ttlMap db') (str k) = None \<and>
                   fst (get_cmd later db' [g, k]) = NullBulkReply)) \<and>
         (db_Peek db (str k) = Some (HashData h) \<and> fs \<noteq> [] \<and>
          fst ` set h \<subseteq> str ` set fs \<longrightarrow>
            (\<exists>n db'. hdel now db (c # k # fs) = Some (MakeIntReply n, db') \<and>
                   db_Peek db' (str k) = None \<and> map_of (ttlMap db') (str k) = None \<and>
                   fst (get_cmd later db' [g, k]) = NullBulkReply)) \<and>
         (db_Peek db (str k) = Some (SetData m) \<and> ms \<noteq> [] \<and>
          set m \<subseteq> str ` set ms \<longrightarrow>
            (\<exists>n db'. srem now db (c # k # ms) = Some (MakeIntReply n, db') \<and>
                   db_Peek db' (str k) = None \<and> map_of (ttlMap db') (str k) = None \<and>
                   fst (get_cmd later db' [g, k]) = NullBulkReply))"
proof (intro conjI impI)
  let ?key = "str k"
  let ?out = "\<lambda>v. db_Remove (db_mutate (snd (db_Get db ?key)) ?key v) ?key"
  note gf = db_Get_fields [of db ?key]
  have gone: "db_Peek (?out v) ?key = None \<and> map_of (ttlMap (?out v)) ?key = None \<and>
              fst (get_cmd later (?out v) [g, k]) = NullBulkReply"
    if "db_Peek db ?key = Some v0" for v v0
    using removed_key_gone [OF that, of v] get_cmd_missing [of "?out v" k later g] by simp
  {
    assume p: "db_Peek db ?key = Some (ListData [x])"
    have "lpop now db [c, k] = Some (MakeBulkReply x, ?out (ListData []))"
      using p live gf by (simp add: lpop_def Let_def case_prod_unfold)
    then show "\<exists>db'. lpop now db [c, k] = Some (MakeBulkReply x, db') \<and>
                   db_Peek db' (str k) = None \<and> map_of (ttlMap db') (str k) = None \<and>
                   fst (get_cmd later db' [g, k]) = NullBulkReply"
      using gone [OF p] by simp
    have "rpop now db [c, k] = Some (MakeBulkReply x, ?out (ListData []))"
      using p live gf by (simp add: rpop_def Let_def case_prod_unfold)
    then show "\<exists>db'. rpop now db [c, k] = Some (MakeBulkReply x, db') \<and>
                   db_Peek db' (str k) = None \<and> map_of (ttlMap db') (str k) = None \<and>
                   fst (get_cmd later db' [g, k]) = NullBulkReply"
      using gone [OF p] by simp
  }
  {
    assume a: "db_Peek db ?key = Some (HashData h) \<and> fs \<noteq> [] \<and>
               fst ` set h \<subseteq> str ` set fs"
    then have p: "db_Peek db ?key = Some (HashData h)" by simp
    have e: "fst (hdel_loop fs h 0) = []"
      using a by (auto simp: hdel_loop_filter filter_empty_conv)
    have gh: "getHash now db ?key = (Some h, snd (db_Get db ?key))"
      using p live gf by (simp add: getHash_def Let_def case_prod_unfold)
    have "hdel now db (c # k # fs) =
            Some (MakeIntReply (of_nat (snd (hdel_loop fs h 0))), ?out (HashData []))"
      using a e gh by (cases fs) (simp_all add: hdel_def Let_def case_prod_unfold)
    then show "\<exists>n db'. hdel now db (c # k # fs) = Some (MakeIntReply n, db') \<and>
                   db_Peek db' (str k) = None \<and> map_of (ttlMap db') (str k) = None \<and>
                   fst (get_cmd later db' [g, k]) = NullBulkReply"
      using gone [OF p] by blast
  }
  {
    assume a: "db_Peek db ?key = Some (SetData m) \<and> ms \<noteq> [] \<and>
               set m \<subseteq> str ` set ms"
    then have p: "db_Peek db ?key = Some (SetData m)" by simp
    have e: "fst (srem_loop ms m 0) = []"
      using a by (auto simp: srem_loop_filter filter_empty_conv)
    have gs: "getSet now db ?key = (Some m, snd (db_Get db ?key))"
      using p live gf by (simp add: getSet_def Let_def case_prod_unfold)
    have "srem now db (c # k # ms) =
            Some (MakeIntReply (of_nat (snd (srem_loop ms m 0))), ?out (SetData []))"
      using a e gs by (cases ms) (simp_all add: srem_def Let_def case_prod_unfold)
    then show "\<exists>n db'. srem now db (c # k # ms) = Some (MakeIntReply n, db') \<and>
                   db_Peek db' (str k) = None \<and> map_of (ttlMap db') (str k) = None \<and>
                   fst (get_cmd later db' [g, k]) = NullBulkReply"
      using gone [OF p] by blast
  }
qed

lemma ex_containers_live:
  "\<not> past_due 0 ex_ttl_list_db (str (Some ''l''))"
  "\<not> past_due 0 ex_hash_db (str (Some ''h''))"
  "\<not> past_due 0 ex_set_db (str (Some ''s''))"
  by (simp_all add: past_due_def str_def ex_ttl_list_db_def ex_hash_db_def ex_set_db_def)

lemma ex_containers_Peek:
  "db_Peek ex_ttl_list_db ''l'' = Some (ListData [Some ''a''])"
  "db_Peek ex_hash_db ''h'' = Some (HashData [(''f'', Some ''v'')])"
  "db_Peek ex_set_db ''s'' = Some (SetData [''m''])"
  by (simp_all add: db_Peek_def lru_Peek_def ex_ttl_list_db_def ex_list_db_def ex_hash_db_def
      ex_set_db_def)

theorem C10_last_element_removes_key_witness:
  "(\<exists>db'. lpop 0 ex_ttl_list_db [Some ''LPOP'', Some ''l''] = Some (MakeBulkReply (Some ''a''), db') \<and>
          db_Peek db' ''l'' = None \<and> map_of (ttlMap db') ''l'' = None \<and>
          fst (get_cmd 1 db' [Some ''GET'', Some ''l'']) = NullBulkReply) \<and>
   (\<exists>db'. rpop 0 ex_ttl_list_db [Some ''RPOP'', Some ''l''] = Some (MakeBulkReply (Some ''a''), db') \<and>
          db_Peek db' ''l'' = None \<and> map_of (ttlMap db') ''l'' = None \<and>
          fst (get_cmd 1 db' [Some ''GET'', Some ''l'']) = NullBulkReply) \<and>
   (\<exists>n db'. hdel 0 ex_hash_db [Some ''HDEL'', Some ''h'', Some ''f''] = Some (MakeIntReply n, db') \<and>
          db_Peek db' ''h'' = None \<and> map_of (ttlMap db') ''h'' = None \<and>
          fst (get_cmd 1 db' [Some ''GET'', Some ''h'']) = NullBulkReply) \<and>
   (\<exists>n db'. srem 0 ex_set_db [Some ''SREM'', Some ''s'', Some ''m''] = Some (MakeIntReply n, db') \<and>
          db_Peek db' ''s'' = None \<and> map_of (ttlMap db') ''s'' = None \<and>
          fst (get_cmd 1 db' [Some ''GET'', Some ''s'']) = NullBulkReply)"
  (is "?A \<and> ?B \<and> ?C \<and> ?D")
proof -
  have ab: "?A \<and> ?B"
    using C10_last_element_removes_key [OF ex_containers_live(1),
        where x = "Some ''a''" and c = "Some ''LPOP''" and later = 1 and g = "Some ''GET''"]
      C10_last_element_removes_key [OF ex_containers_live(1),
        where x = "Some ''a''" and c = "Some ''RPOP''" and later = 1 and g = "Some ''GET''"]
      ex_containers_Peek(1)
    by (simp add: str_def)
  have c: ?C
    using C10_last_element_removes_key [OF ex_containers_live(2),
        where h = "[(''f'', Some ''v'')]" and fs = "[Some ''f'']" and c = "Some ''HDEL''"
          and later = 1 and g = "Some ''GET''"]
      ex_containers_Peek(2)
    by (simp add: str_def)
  have d: ?D
    using C10_last_element_removes_key [OF ex_containers_live(3),
        where m = "[''m'']" and ms = "[Some ''m'']" and c = "Some ''SREM''"
          and later = 1 and g = "Some ''GET''"]
      ex_containers_Peek(3)
    by (simp add: str_def)
  from ab c d show ?thesis by simp
qed

subsection \<open>Writes and the expiration table\<close>

lemma inplace_Add:
  assumes inv: "db_inv db" and p: "db_Peek db key = Some v0"
  shows "\<exists>db'. db_Add (db_mutate db key v) key v = Some db' \<and> ttlMap db' = ttlMap db \<and>
               db_Peek db' key = Some v"
proof -
  let ?m = "db_mutate db key v"
  note mf = db_mutate_fields [of db key v]
  have pm: "db_Peek ?m key = Some v" using mf p by simp
  then have d0: "add_delta (cache ?m) key v = 0" by (simp add: add_delta_def db_Peek_def)
  have bud: "cache_maxBytes (cache ?m) = 0 \<or>
             cache_nbytes (cache ?m) + add_delta (cache ?m) key v \<le> cache_maxBytes (cache ?m)"
    using inv mf d0 by (auto simp: db_inv_def cache_budget_def)
  have "\<exists>db'. db_Add ?m key v = Some db' \<and> ttlMap db' = ttlMap ?m \<and> db_Peek db' key = Some v"
    using db_Add_result [OF db_inv_mutate [OF inv, of key v], of key v] bud
    by (elim exE conjE) (simp add: pm)
  then show ?thesis using mf by simp
qed

lemma inplace_store:
  assumes inv: "db_inv db" and p: "db_Peek db key = Some v0"
  shows "\<exists>db'. db_Add (db_mutate (snd (db_Get db key)) key v) key v = Some db' \<and>
               ttlMap db' = ttlMap db \<and> db_Peek db' key = Some v"
  using inplace_Add [OF db_inv_Get [OF inv, of key], of key v0 v] p db_Get_fields [of db key]
  by simp

lemma getListForWrite_live:
  assumes "db_Peek db key = Some v0" "\<not> past_due now db key"
  shows "getListForWrite now db key =
           (case v0 of ListData l \<Rightarrow> (Inr (l, False), snd (db_Get db key))
                     | _ \<Rightarrow> (Inl WRONGTYPE, snd (db_Get db key)))"
  using assms db_Get_fields [of db key]
  by (simp add: getListForWrite_def Let_def case_prod_unfold split: DataEntity.splits)

lemma getHash_live:
  assumes "db_Peek db key = Some v0" "\<not> past_due now db key"
  shows "getHash now db key =
           (case v0 of HashData h \<Rightarrow> (Some h, snd (db_Get db key))
                     | _ \<Rightarrow> (None, snd (db_Get db key)))"
  using assms db_Get_fields [of db key]
  by (simp add: getHash_def Let_def case_prod_unfold split: DataEntity.splits)

lemma getSet_live:
  assumes "db_Peek db key = Some v0" "\<not> past_due now db key"
  shows "getSet now db key =
           (case v0 of SetData m \<Rightarrow> (Some m, snd (db_Get db key))
                     | _ \<Rightarrow> (None, snd (db_Get db key)))"
  using assms db_Get_fields [of db key]
  by (simp add: getSet_def Let_def case_prod_unfold split: DataEntity.splits)

lemma set_cmd_clears:
  assumes inv: "db_inv db" and len: "length args = 3"
  shows "\<exists>db'. set_cmd db args = Some (OkReply, db') \<and> map_of (ttlMap db') (str (args ! 1)) = None"
proof -
  from db_Add_result [OF inv, of "str (args ! 1)" "StringData (args ! 2)"]
  obtain db1 where "db_Add db (str (args ! 1)) (StringData (args ! 2)) = Some db1" by blast
  then show ?thesis using len by (simp add: set_cmd_def Let_def delete_conv')
qed

lemma after_Get:
  assumes "db_Peek db key = Some v0"
  shows "db_Peek (snd (db_Get db key)) key \<noteq> None \<and>
         map_of (ttlMap (snd (db_Get db key))) key = map_of (ttlMap db) key"
  using assms db_Get_fields [of db key] by simp

lemma after_Get_Get:
  assumes "db_Peek db key = Some v0"
  shows "db_Peek (snd (db_Get (snd (db_Get db key)) key)) key \<noteq> None \<and>
         map_of (ttlMap (snd (db_Get (snd (db_Get db key)) key))) key = map_of (ttlMap db) key"
  using assms db_Get_fields [of db key] db_Get_fields [of "snd (db_Get db key)" key] by simp

lemma after_store:
  assumes "db_inv db" "db_Peek db key = Some v0"
  shows "\<exists>db'. db_Add (db_mutate (snd (db_Get db key)) key v) key v = Some db' \<and>
               db_Peek db' key \<noteq> None \<and> map_of (ttlMap db') key = map_of (ttlMap db) key"
  using inplace_store [OF assms, of v] by auto

lemma singleton_butlast: "length l = 1 \<longleftrightarrow> l \<noteq> [] \<and> butlast l = []"
  by (cases l) auto

lemma hdel_loop_empties:
  "fst (hdel_loop fs h 0) = [] \<longleftrightarrow> fst ` set h \<subseteq> str ` set fs"
  by (auto simp: hdel_loop_filter filter_empty_conv)

lemma srem_loop_empties:
  "fst (srem_loop xs m 0) = [] \<longleftrightarrow> set m \<subseteq> str ` set xs"
  by (auto simp: srem_loop_filter filter_empty_conv)

lemma after_lpush:
  assumes inv: "db_inv db" and p: "db_Peek db (str (args ! 1)) = Some v0"
    and live: "\<not> past_due now db (str (args ! 1))"
  shows "\<exists>r db'. lpush now db args = Some (r, db') \<and>
           db_Peek db' (str (args ! 1)) \<noteq> None \<and>
           map_of (ttlMap db') (str (args ! 1)) = map_of (ttlMap db) (str (args ! 1))"
proof (cases "length args < 3")
  case True
  then show ?thesis using p by (simp add: lpush_def)
next
  case False
  show ?thesis
  proof (cases v0)
    case (ListData l)
    from after_store [OF inv p, of "ListData (rev (drop 2 args) @ l)"]
    show ?thesis
      using False ListData getListForWrite_live [OF p live]
      by (auto simp: lpush_def Let_def store_back_def)
  qed (use False getListForWrite_live [OF p live] after_Get [OF p] in
        \<open>simp_all add: lpush_def Let_def\<close>)
qed

lemma after_rpush:
  assumes inv: "db_inv db" and p: "db_Peek db (str (args ! 1)) = Some v0"
    and live: "\<not> past_due now db (str (args ! 1))"
  shows "\<exists>r db'. rpush now db args = Some (r, db') \<and>
           db_Peek db' (str (args ! 1)) \<noteq> None \<and>
           map_of (ttlMap db') (str (args ! 1)) = map_of (ttlMap db) (str (args ! 1))"
proof (cases "length args < 3")
  case True
  then show ?thesis using p by (simp add: rpush_def)
next
  case False
  show ?thesis
  proof (cases v0)
    case (ListData l)
    from after_store [OF inv p, of "ListData (l @ drop 2 args)"]
    show ?thesis
      using False ListData getListForWrite_live [OF p live]
      by (auto simp: rpush_def Let_def store_back_def)
  qed (use False getListForWrite_live [OF p live] after_Get [OF p] in
        \<open>simp_all add: rpush_def Let_def\<close>)
qed

lemma after_lpop:
  assumes inv: "db_inv db" and p: "db_Peek db (str (args ! 1)) = Some v0"
    and live: "\<not> past_due now db (str (args ! 1))"
  shows "\<exists>r db'. lpop now db args = Some (r, db') \<and>
           (if length args = 2 \<and> (\<exists>l. v0 = ListData l \<and> length l = 1)
            then db_Peek db' (str (args ! 1)) = None \<and> map_of (ttlMap db') (str (args ! 1)) = None
            else db_Peek db' (str (args ! 1)) \<noteq> None \<and>
           map_of (ttlMap db') (str (args ! 1)) = map_of (ttlMap db) (str (args ! 1)))"
proof (cases "length args \<noteq> 2")
  case True
  then show ?thesis using p by (simp add: lpop_def)
next
  case False
  note gf = db_Get_fields [of db "str (args ! 1)"]
  show ?thesis
  proof (cases v0)
    case (ListData l)
    show ?thesis
    proof (cases l)
      case Nil
      then show ?thesis
        using False ListData p live gf after_Get [OF p]
        by (simp add: lpop_def Let_def case_prod_unfold)
    next
      case (Cons front l')
      show ?thesis
      proof (cases "l' = []")
        case True
        then show ?thesis
          using False ListData Cons p live gf removed_key_gone [OF p, of "ListData []"]
          by (simp add: lpop_def Let_def case_prod_unfold)
      next
        case ne: False
        from after_store [OF inv p, of "ListData l'"]
        show ?thesis
          using False ListData Cons ne p live gf
          by (auto simp: lpop_def Let_def case_prod_unfold)
      qed
    qed
  qed (use False p live gf after_Get [OF p] in \<open>simp_all add: lpop_def Let_def case_prod_unfold\<close>)
qed

lemma after_rpop:
  assumes inv: "db_inv db" and p: "db_Peek db (str (args ! 1)) = Some v0"
    and live: "\<not> past_due now db (str (args ! 1))"
  shows "\<exists>r db'. rpop now db args = Some (r, db') \<and>
           (if length args = 2 \<and> (\<exists>l. v0 = ListData l \<and> length l = 1)
            then db_Peek db' (str (args ! 1)) = None \<and> map_of (ttlMap db') (str (args ! 1)) = None
            else db_Peek db' (str (args ! 1)) \<noteq> None \<and>
           map_of (ttlMap db') (str (args ! 1)) = map_of (ttlMap db) (str (args ! 1)))"
proof (cases "length args \<noteq> 2")
  case True
  then show ?thesis using p by (simp add: rpop_def)
next
  case False
  note gf = db_Get_fields [of db "str (args ! 1)"]
  show ?thesis
  proof (cases v0)
    case (ListData l)
    show ?thesis
    proof (cases "l = []")
      case True
      then show ?thesis
        using False ListData p live gf after_Get [OF p]
        by (simp add: rpop_def Let_def case_prod_unfold)
    next
      case ne: False
      show ?thesis
      proof (cases "butlast l = []")
        case True
        then have "length l = 1" using ne singleton_butlast [of l] by blast
        then show ?thesis
          using False ListData ne True p live gf removed_key_gone [OF p, of "ListData []"]
          by (simp add: rpop_def Let_def case_prod_unfold)
      next
        case ne2: False
        then have "length l \<noteq> 1" using singleton_butlast [of l] by blast
        from after_store [OF inv p, of "ListData (butlast l)"] this
        show ?thesis
          using False ListData ne ne2 p live gf
          by (auto simp: rpop_def Let_def case_prod_unfold)
      qed
    qed
  qed (use False p live gf after_Get [OF p] in \<open>simp_all add: rpop_def Let_def case_prod_unfold\<close>)
qed

lemma after_hset:
  assumes inv: "db_inv db" and p: "db_Peek db (str (args ! 1)) = Some v0"
    and live: "\<not> past_due now db (str (args ! 1))"
  shows "\<exists>r db'. hset now db args = Some (r, db') \<and>
           db_Peek db' (str (args ! 1)) \<noteq> None \<and>
           map_of (ttlMap db') (str (args ! 1)) = map_of (ttlMap db) (str (args ! 1))"
proof (cases "length args < 4 \<or> length args mod 2 \<noteq> 0")
  case True
  then show ?thesis using p by (auto simp: hset_def)
next
  case False
  let ?key = "str (args ! 1)"
  note gf = db_Get_fields [of db ?key] db_Get_fields [of "snd (db_Get db ?key)" ?key]
  show ?thesis
  proof (cases v0)
    case (HashData h)
    from after_store [OF inv p, of "HashData (fst (hset_loop (drop 2 args) h 0))"]
    show ?thesis
      using False HashData getHash_live [OF p live]
      by (auto simp: hset_def hset_store_def Let_def store_back_def case_prod_unfold)
  qed (use False p live gf getHash_live [OF p live] after_Get_Get [OF p] in
        \<open>simp_all add: hset_def Let_def case_prod_unfold is_HashData_def\<close>)
qed

lemma after_hdel:
  assumes inv: "db_inv db" and p: "db_Peek db (str (args ! 1)) = Some v0"
    and live: "\<not> past_due now db (str (args ! 1))"
  shows "\<exists>r db'. hdel now db args = Some (r, db') \<and>
           (if 3 \<le> length args \<and>
               (\<exists>h. v0 = HashData h \<and> fst ` set h \<subseteq> str ` set (drop 2 args))
            then db_Peek db' (str (args ! 1)) = None \<and> map_of (ttlMap db') (str (args ! 1)) = None
            else db_Peek db' (str (args ! 1)) \<noteq> None \<and>
           map_of (ttlMap db') (str (args ! 1)) = map_of (ttlMap db) (str (args ! 1)))"
proof (cases "length args < 3")
  case True
  then show ?thesis using p by (auto simp: hdel_def)
next
  case False
  let ?key = "str (args ! 1)"
  note gf = db_Get_fields [of db ?key] db_Get_fields [of "snd (db_Get db ?key)" ?key]
  show ?thesis
  proof (cases v0)
    case (HashData h)
    let ?h = "fst (hdel_loop (drop 2 args) h 0)"
    show ?thesis
    proof (cases "?h = []")
      case True
      then have "fst ` set h \<subseteq> str ` set (drop 2 args)" by (simp add: hdel_loop_empties)
      then show ?thesis
        using False True HashData getHash_live [OF p live] removed_key_gone [OF p, of "HashData []"]
        by (simp add: hdel_def Let_def case_prod_unfold)
    next
      case ne: False
      then have "\<not> fst ` set h \<subseteq> str ` set (drop 2 args)" by (simp add: hdel_loop_empties)
      from after_store [OF inv p, of "HashData ?h"] this
      show ?thesis
        using False HashData ne getHash_live [OF p live]
        by (auto simp: hdel_def Let_def case_prod_unfold)
    qed
  qed (use False p live gf getHash_live [OF p live] after_Get_Get [OF p] in
        \<open>simp_all add: hdel_def Let_def case_prod_unfold is_HashData_def\<close>)
qed

lemma after_sadd:
  assumes inv: "db_inv db" and p: "db_Peek db (str (args ! 1)) = Some v0"
    and live: "\<not> past_due now db (str (args ! 1))"
  shows "\<exists>r db'. sadd now db args = Some (r, db') \<and>
           db_Peek db' (str (args ! 1)) \<noteq> None \<and>
           map_of (ttlMap db') (str (args ! 1)) = map_of (ttlMap db) (str (args ! 1))"
proof (cases "length args < 3")
  case True
  then show ?thesis using p by (auto simp: sadd_def)
next
  case False
  let ?key = "str (args ! 1)"
  note gf = db_Get_fields [of db ?key] db_Get_fields [of "snd (db_Get db ?key)" ?key]
  show ?thesis
  proof (cases v0)
    case (SetData m)
    from after_store [OF inv p, of "SetData (fst (sadd_loop (drop 2 args) m 0))"]
    show ?thesis
      using False SetData getSet_live [OF p live] after_Get [OF p]
      by (auto simp: sadd_def sadd_store_def Let_def store_back_def case_prod_unfold)
  qed (use False p live gf getSet_live [OF p live] after_Get_Get [OF p] in
        \<open>simp_all add: sadd_def Let_def case_prod_unfold is_SetData_def\<close>)
qed

lemma after_srem:
  assumes inv: "db_inv db" and p: "db_Peek db (str (args ! 1)) = Some v0"
    and live: "\<not> past_due now db (str (args ! 1))"
  shows "\<exists>r db'. srem now db args = Some (r, db') \<and>
           (if 3 \<le> length args \<and>
               (\<exists>m. v0 = SetData m \<and> set m \<subseteq> str ` set (drop 2 args))
            then db_Peek db' (str (args ! 1)) = None \<and> map_of (ttlMap db') (str (args ! 1)) = None
            else db_Peek db' (str (args ! 1)) \<noteq> None \<and>
           map_of (ttlMap db') (str (args ! 1)) = map_of (ttlMap db) (str (args ! 1)))"
proof (cases "length args < 3")
  case True
  then show ?thesis using p by (auto simp: srem_def)
next
  case False
  let ?key = "str (args ! 1)"
  note gf = db_Get_fields [of db ?key] db_Get_fields [of "snd (db_Get db ?key)" ?key]
  show ?thesis
  proof (cases v0)
    case (SetData m)
    let ?m = "fst (srem_loop (drop 2 args) m 0)"
    show ?thesis
    proof (cases "?m = []")
      case True
      then have "set m \<subseteq> str ` set (drop 2 args)" by (simp add: srem_loop_empties)
      then show ?thesis
        using False True SetData getSet_live [OF p live] removed_key_gone [OF p, of "SetData []"]
        by (simp add: srem_def Let_def case_prod_unfold)
    next
      case ne: False
      then have "\<not> set m \<subseteq> str ` set (drop 2 args)" by (simp add: srem_loop_empties)
      from after_store [OF inv p, of "SetData ?m"] this
      show ?thesis
        using False SetData ne getSet_live [OF p live]
        by (auto simp: srem_def Let_def case_prod_unfold)
    qed
  qed (use False p live gf getSet_live [OF p live] after_Get_Get [OF p] in
        \<open>simp_all add: srem_def Let_def case_prod_unfold is_SetData_def\<close>)
qed

text \<open>
  Claim C6, as the code has it. In a state that satisfies the cache invariant, \<open>SET\<close>
  with a key and a value replies \<open>OK\<close> and leaves no expiration entry for the key. Every
  other write on a key that exists and is not past due returns, and what it does to the
  expiration entry of the key is decided by the command and the value \<open>v\<close> of the key.
  After \<open>LPUSH\<close>, \<open>RPUSH\<close>, \<open>HSET\<close> and \<open>SADD\<close> the key is still there and its expiration
  entry is what it was. \<open>LPOP\<close> and \<open>RPOP\<close> with a well-formed request on a list of exactly
  one element, \<open>HDEL\<close> with arguments that cover every field of the hash and \<open>SREM\<close> with
  arguments that cover every member of the set remove the key and its expiration entry;
  in every other case (more elements left, another type of value, a malformed request)
  they too leave the key there and its expiration entry as it was.
\<close>

theorem C6_ttl_after_writes:
  assumes inv: "db_inv db" and len: "1 < length cmd" and key: "str (cmd ! 1) = key"
  shows "(ToLower (str (cmd ! 0)) = ''set'' \<and> length cmd = 3 \<longrightarrow>
            (\<exists>db'. execInternal now io db cmd = Some (OkReply, db') \<and>
                   map_of (ttlMap db') key = None)) \<and>
         (db_Peek db key = Some v \<and> \<not> past_due now db key \<longrightarrow>
            (\<exists>r db'. execInternal now io db cmd = Some (r, db') \<and>
               (ToLower (str (cmd ! 0)) \<in> set [''lpush'', ''rpush'', ''hset'', ''sadd''] \<longrightarrow>
                  db_Peek db' key \<noteq> None \<and> map_of (ttlMap db') key = map_of (ttlMap db) key) \<and>
               (ToLower (str (cmd ! 0)) \<in> set [''lpop'', ''rpop''] \<longrightarrow>
                  (if length cmd = 2 \<and> (\<exists>l. v = ListData l \<and> length l = 1)
                   then db_Peek db' key = None \<and> map_of (ttlMap db') key = None
                   else db_Peek db' key \<noteq> None \<and> map_of (ttlMap db') key = map_of (ttlMap db) key)) \<and>
               (ToLower (str (cmd ! 0)) = ''hdel'' \<longrightarrow>
                  (if 3 \<le> length cmd \<and>
                      (\<exists>h. v = HashData h \<and> fst ` set h \<subseteq> str ` set (drop 2 cmd))
                   then db_Peek db' key = None \<and> map_of (ttlMap db') key = None
                   else db_Peek db' key \<noteq> None \<and> map_of (ttlMap db') key = map_of (ttlMap db) key)) \<and>
               (ToLower (str (cmd ! 0)) = ''srem'' \<longrightarrow>
                  (if 3 \<le> length cmd \<and>
                      (\<exists>m. v = SetData m \<and> set m \<subseteq> str ` set (drop 2 cmd))
                   then db_Peek db' key = None \<and> map_of (ttlMap db') key = None
                   else db_Peek db' key \<noteq> None \<and> map_of (ttlMap db') key = map_of (ttlMap db) key))))"
proof (intro conjI impI)
  have ne: "cmd \<noteq> []" using len by auto
  {
    assume "ToLower (str (cmd ! 0)) = ''set'' \<and> length cmd = 3"
    then show "\<exists>db'. execInternal now io db cmd = Some (OkReply, db') \<and>
                     map_of (ttlMap db') key = None"
      using set_cmd_clears [OF inv, of cmd] ne key by (simp add: execInternal_def)
  }
  {
    assume a: "db_Peek db key = Some v \<and> \<not> past_due now db key"
    then have p: "db_Peek db (str (cmd ! 1)) = Some v"
      and live: "\<not> past_due now db (str (cmd ! 1))"
      using key by auto
    from ok_execInternal [OF ok_refl [OF inv], of now io cmd]
    obtain r db' where ex: "execInternal now io db cmd = Some (r, db')" by blast
    have "ToLower (str (cmd ! 0)) = ''lpush'' \<Longrightarrow> db_Peek db' key \<noteq> None \<and> map_of (ttlMap db') key = map_of (ttlMap db) key"
      using ex ne after_lpush [OF inv p live] unfolding key by (auto simp: execInternal_def)
    moreover have "ToLower (str (cmd ! 0)) = ''rpush'' \<Longrightarrow> db_Peek db' key \<noteq> None \<and> map_of (ttlMap db') key = map_of (ttlMap db) key"
      using ex ne after_rpush [OF inv p live] unfolding key by (auto simp: execInternal_def)
    moreover have "ToLower (str (cmd ! 0)) = ''hset'' \<Longrightarrow> db_Peek db' key \<noteq> None \<and> map_of (ttlMap db') key = map_of (ttlMap db) key"
      using ex ne after_hset [OF inv p live] unfolding key by (auto simp: execInternal_def)
    moreover have "ToLower (str (cmd ! 0)) = ''sadd'' \<Longrightarrow> db_Peek db' key \<noteq> None \<and> map_of (ttlMap db') key = map_of (ttlMap db) key"
      using ex ne after_sadd [OF inv p live] unfolding key by (auto simp: execInternal_def)
    moreover have "ToLower (str (cmd ! 0)) = ''lpop'' \<Longrightarrow>
        (if length cmd = 2 \<and> (\<exists>l. v = ListData l \<and> length l = 1)
         then db_Peek db' key = None \<and> map_of (ttlMap db') key = None
         else db_Peek db' key \<noteq> None \<and> map_of (ttlMap db') key = map_of (ttlMap db) key)"
      using ex ne after_lpop [OF inv p live] unfolding key by (auto simp: execInternal_def)
    moreover have "ToLower (str (cmd ! 0)) = ''rpop'' \<Longrightarrow>
        (if length cmd = 2 \<and> (\<exists>l. v = ListData l \<and> length l = 1)
         then db_Peek db' key = None \<and> map_of (ttlMap db') key = None
         else db_Peek db' key \<noteq> None \<and> map_of (ttlMap db') key = map_of (ttlMap db) key)"
      using ex ne after_rpop [OF inv p live] unfolding key by (auto simp: execInternal_def)
    moreover have "ToLower (str (cmd ! 0)) = ''hdel'' \<Longrightarrow>
        (if 3 \<le> length cmd \<and>
            (\<exists>h. v = HashData h \<and> fst ` set h \<subseteq> str ` set (drop 2 cmd))
         then db_Peek db' key = None \<and> map_of (ttlMap db') key = None
         else db_Peek db' key \<noteq> None \<and> map_of (ttlMap db') key = map_of (ttlMap db) key)"
      using ex ne after_hdel [OF inv p live] unfolding key by (auto simp: execInternal_def)
    moreover have "ToLower (str (cmd ! 0)) = ''srem'' \<Longrightarrow>
        (if 3 \<le> length cmd \<and>
            (\<exists>m. v = SetData m \<and> set m \<subseteq> str ` set (drop 2 cmd))
         then db_Peek db' key = None \<and> map_of (ttlMap db') key = None
         else db_Peek db' key \<noteq> None \<and> map_of (ttlMap db') key = map_of (ttlMap db) key)"
      using ex ne after_srem [OF inv p live] unfolding key by (auto simp: execInternal_def)
    ultimately show "\<exists>r db'. execInternal now io db cmd = Some (r, db') \<and>
               (ToLower (str (cmd ! 0)) \<in> set [''lpush'', ''rpush'', ''hset'', ''sadd''] \<longrightarrow>
                  db_Peek db' key \<noteq> None \<and> map_of (ttlMap db') key = map_of (ttlMap db) key) \<and>
               (ToLower (str (cmd ! 0)) \<in> set [''lpop'', ''rpop''] \<longrightarrow>
                  (if length cmd = 2 \<and> (\<exists>l. v = ListData l \<and> length l = 1)
                   then db_Peek db' key = None \<and> map_of (ttlMap db') key = None
                   else db_Peek db' key \<noteq> None \<and> map_of (ttlMap db') key = map_of (ttlMap db) key)) \<and>
               (ToLower (str (cmd ! 0)) = ''hdel'' \<longrightarrow>
                  (if 3 \<le> length cmd \<and>
                      (\<exists>h. v = HashData h \<and> fst ` set h \<subseteq> str ` set (drop 2 cmd))
                   then db_Peek db' key = None \<and> map_of (ttlMap db') key = None
                   else db_Peek db' key \<noteq> None \<and> map_of (ttlMap db') key = map_of (ttlMap db) key)) \<and>
               (ToLower (str (cmd ! 0)) = ''srem'' \<longrightarrow>
                  (if 3 \<le> length cmd \<and>
                      (\<exists>m. v = SetData m \<and> set m \<subseteq> str ` set (drop 2 cmd))
                   then db_Peek db' key = None \<and> map_of (ttlMap db') key = None
                   else db_Peek db' key \<noteq> None \<and> map_of (ttlMap db') key = map_of (ttlMap db) key))"
      using ex by (intro exI [of _ r] exI [of _ db']) (simp del: One_nat_def)
  }
qed

lemma ex_ttl_dbs_inv: "db_inv ex_ttl_list_db" "db_inv ex_hash_db"
  by (simp_all add: db_inv_def ex_ttl_list_db_def ex_list_db_def ex_hash_db_def lru_wf_def
      cache_budget_def)

theorem C6_ttl_after_writes_witness:
  "(\<exists>db'. execInternal 0 ex_io ex_ttl_list_db [Some ''SET'', Some ''l'', Some ''x''] =
            Some (OkReply, db') \<and>
          map_of (ttlMap db') ''l'' = None) \<and>
   (\<exists>r db'. execInternal 0 ex_io ex_hash_db [Some ''HSET'', Some ''h'', Some ''g'', Some ''w''] =
            Some (r, db') \<and>
          db_Peek db' ''h'' \<noteq> None \<and> map_of (ttlMap db') ''h'' = Some 1000000000) \<and>
   (\<exists>r db'. execInternal 0 ex_io ex_hash_db [Some ''HDEL'', Some ''h'', Some ''f''] =
            Some (r, db') \<and>
          db_Peek db' ''h'' = None \<and> map_of (ttlMap db') ''h'' = None)"
  (is "?A \<and> ?B \<and> ?C")
proof -
  have f: "ToLower (str (Some ''SET'')) = ''set''" "ToLower (str (Some ''HSET'')) = ''hset''"
    "ToLower (str (Some ''HDEL'')) = ''hdel''"
    "str (Some ''l'') = ''l''" "str (Some ''h'') = ''h''" "str (Some ''f'') = ''f''"
    "\<not> past_due 0 ex_hash_db ''h''"
    "db_Peek ex_hash_db ''h'' = Some (HashData [(''f'', Some ''v'')])"
    "map_of (ttlMap ex_hash_db) ''h'' = Some 1000000000"
    by code_simp+
  have a: ?A
    using C6_ttl_after_writes [OF ex_ttl_dbs_inv(1), where now = 0 and io = ex_io
        and cmd = "[Some ''SET'', Some ''l'', Some ''x'']" and key = "''l''"] f
    by simp
  have b: ?B
    using C6_ttl_after_writes [OF ex_ttl_dbs_inv(2), where now = 0 and io = ex_io
        and cmd = "[Some ''HSET'', Some ''h'', Some ''g'', Some ''w'']" and key = "''h''"
        and v = "HashData [(''f'', Some ''v'')]"] f
    by simp
  have c: ?C
    using C6_ttl_after_writes [OF ex_ttl_dbs_inv(2), where now = 0 and io = ex_io
        and cmd = "[Some ''HDEL'', Some ''h'', Some ''f'']" and key = "''h''"
        and v = "HashData [(''f'', Some ''v'')]"] f
    by simp
  from a b c show ?thesis by (intro conjI)
qed

text \<open>
  The claim as stated fails for the writes that can empty a container: \<open>LPOP l\<close> on
  the list \<open>[a]\<close> with an expiration at one second removes the key, and the expiration
  entry with it.
\<close>

theorem C6_lpop_drops_ttl_counterexample:
  "db_Peek ex_ttl_list_db ''l'' = Some (ListData [Some ''a'']) \<and>
   map_of (ttlMap ex_ttl_list_db) ''l'' = Some 1000000000 \<and>
   execInternal 0 ex_io ex_ttl_list_db [Some ''LPOP'', Some ''l''] =
     Some (BulkReply (Some ''a''),
           \<lparr>cache = LRU \<lparr>maxBytes = 104857600, nbytes = 17, ll = []\<rparr>, ttlMap = [],
            evictedKeys = [], aofHandler = None, rdbFilename = [], rdbSaving = False,
            aofRewriting = False, callbacks = [(''l'', ListData [], RemoveReasonDeleted)]\<rparr>)"
  by code_simp

subsection \<open>Keys that are past due\<close>

lemma ex_expired_past_due: "past_due 10 ex_expired_db ''k''"
  by (simp add: past_due_def ex_expired_db_def)
lemma ex_expired_get: "execInternal 10 ex_io ex_expired_db [Some ''GET'', Some ''k''] =
     Some (NullBulkReply,
           ex_expired_db\<lparr>cache := LRU \<lparr>maxBytes = 104857600, nbytes = 0, ll = []\<rparr>,
                          ttlMap := [],
                          callbacks := [(''k'', StringData (Some ''v''), RemoveReasonDeleted)]\<rparr>)"
  by code_simp
lemma ex_expired_persist: "execInternal 10 ex_io ex_expired_db [Some ''PERSIST'', Some ''k''] =
     Some (IntReply 1, ex_expired_db\<lparr>ttlMap := []\<rparr>)"
  by code_simp
lemma ex_expired_get_again: "fst (get_cmd 10 (ex_expired_db\<lparr>ttlMap := []\<rparr>) [Some ''GET'', Some ''k'']) =
     BulkReply (Some ''v'')"
  by code_simp
lemma ex_expired_del: "execInternal 10 ex_io ex_expired_db [Some ''DEL'', Some ''k''] =
     Some (IntReply 1,
           ex_expired_db\<lparr>cache := LRU \<lparr>maxBytes = 104857600, nbytes = 0, ll = []\<rparr>,
                          ttlMap := [],
                          callbacks := [(''k'', StringData (Some ''v''), RemoveReasonDeleted)]\<rparr>)"
  by code_simp

lemma ex_expired_expire: "execInternal 10 ex_io ex_expired_db [Some ''EXPIRE'', Some ''k'', Some ''5''] =
     Some (IntReply 1, ex_expired_db\<lparr>ttlMap := [(''k'', 5000000010)]\<rparr>)"
proof -
  have n: "ToLower (str (Some ''EXPIRE'')) = ''expire''" by code_simp
  have p: "db_Peek ex_expired_db ''k'' = Some (StringData (Some ''v''))" by code_simp
  have t: "ttlMap ex_expired_db = [(''k'', 1)]" by (simp add: ex_expired_db_def)
  show ?thesis
    using n p t
    by (simp add: execInternal_def expire_def str_def ParseInt_examples seconds_Duration_def
        MakeIntReply_def)
qed

text \<open>
  Claim C5 does not hold of the code. At 10 ns the key \<open>k\<close>, whose expiration was at
  1 ns, is past due. \<open>GET k\<close> removes it and replies with the null bulk. \<open>PERSIST k\<close>
  finds it with \<open>Peek\<close>, replies 1 and removes the expiration only: a \<open>GET\<close> after it
  returns the value. \<open>DEL k\<close> counts it as a key that was there, and \<open>EXPIRE k 5\<close> replies
  1 and gives it a new expiration.
\<close>

theorem C5_expired_key_not_absent:
  "past_due 10 ex_expired_db ''k'' \<and>
   execInternal 10 ex_io ex_expired_db [Some ''GET'', Some ''k''] =
     Some (NullBulkReply,
           ex_expired_db\<lparr>cache := LRU \<lparr>maxBytes = 104857600, nbytes = 0, ll = []\<rparr>,
                          ttlMap := [],
                          callbacks := [(''k'', StringData (Some ''v''), RemoveReasonDeleted)]\<rparr>) \<and>
   execInternal 10 ex_io ex_expired_db [Some ''PERSIST'', Some ''k''] =
     Some (IntReply 1, ex_expired_db\<lparr>ttlMap := []\<rparr>) \<and>
   fst (get_cmd 10 (ex_expired_db\<lparr>ttlMap := []\<rparr>) [Some ''GET'', Some ''k'']) =
     BulkReply (Some ''v'') \<and>
   execInternal 10 ex_io ex_expired_db [Some ''DEL'', Some ''k''] =
     Some (IntReply 1,
           ex_expired_db\<lparr>cache := LRU \<lparr>maxBytes = 104857600, nbytes = 0, ll = []\<rparr>,
                          ttlMap := [],
                          callbacks := [(''k'', StringData (Some ''v''), RemoveReasonDeleted)]\<rparr>) \<and>
   execInternal 10 ex_io ex_expired_db [Some ''EXPIRE'', Some ''k'', Some ''5''] =
     Some (IntReply 1, ex_expired_db\<lparr>ttlMap := [(''k'', 5000000010)]\<rparr>)"
  using ex_expired_past_due ex_expired_get ex_expired_persist ex_expired_get_again ex_expired_del ex_expired_expire by (intro conjI)

subsection \<open>The tracked total after a write in place\<close>

lemma ex_lpush_lru:
  "execInternal 0 ex_io (NewStandaloneDBWithConfig False [] 0 ''lru'') [Some ''LPUSH'', Some ''l'', Some ''a''] =
     Some (IntReply 1, ex_list_db)"
  "execInternal 0 ex_io ex_list_db [Some ''LPUSH'', Some ''l'', Some ''b''] =
     Some (IntReply 2, ex_list2_db)"
  by code_simp+

lemma ex_lpush_lfu:
  "execInternal 0 ex_io (NewStandaloneDBWithConfig False [] 0 ''lfu'') [Some ''LPUSH'', Some ''l'', Some ''a''] =
     Some (IntReply 1, ex_lfu_list_db)"
  "execInternal 0 ex_io ex_lfu_list_db [Some ''LPUSH'', Some ''l'', Some ''b''] =
     Some (IntReply 2, ex_lfu_list2_db)"
  by code_simp+

lemma ex_lpush_totals:
  "cache_nbytes (cache ex_list2_db) = 18" "cache_total (cache ex_list2_db) = 35"
  "cache_nbytes (cache ex_lfu_list2_db) = 18" "cache_total (cache ex_lfu_list2_db) = 35"
  by (simp_all add: ex_list2_db_def ex_lfu_list2_db_def lru_total_def lfu_total_def blen_def str_def)

text \<open>
  Claim C7 does not hold of the code. \<open>LPUSH l a\<close> on a new database books 18 bytes for
  the key and the list. A second \<open>LPUSH l b\<close> adds the element to the list that the
  entry holds and then calls \<open>Add\<close> with that same list: \<open>Add\<close> books the difference
  between the size of the new value and the size of the old one, which are one object,
  so the tracked total stays 18 while the sizes of the entries sum to 35. This is so
  with the LRU cache and with the LFU cache. (That the tracked total is within the
  budget after \<open>Add\<close> is part of \<open>cache_Add_result\<close>.)
\<close>

theorem C7_tracked_total_stale:
  "execInternal 0 ex_io (NewStandaloneDBWithConfig False [] 0 ''lru'')
       [Some ''LPUSH'', Some ''l'', Some ''a''] = Some (IntReply 1, ex_list_db) \<and>
   execInternal 0 ex_io ex_list_db [Some ''LPUSH'', Some ''l'', Some ''b''] =
     Some (IntReply 2, ex_list2_db) \<and>
   cache_nbytes (cache ex_list2_db) = 18 \<and> cache_total (cache ex_list2_db) = 35 \<and>
   execInternal 0 ex_io (NewStandaloneDBWithConfig False [] 0 ''lfu'')
       [Some ''LPUSH'', Some ''l'', Some ''a''] = Some (IntReply 1, ex_lfu_list_db) \<and>
   execInternal 0 ex_io ex_lfu_list_db [Some ''LPUSH'', Some ''l'', Some ''b''] =
     Some (IntReply 2, ex_lfu_list2_db) \<and>
   cache_nbytes (cache ex_lfu_list2_db) = 18 \<and> cache_total (cache ex_lfu_list2_db) = 35"
  using ex_lpush_lru ex_lpush_lfu ex_lpush_totals by (intro conjI)

subsection \<open>\<open>DEL\<close> across the nodes of a cluster\<close>

lemma groupKeys_facts:
  assumes ow: "\<And>kb. owner kb = (let n = NodeForKey env (ring r) (str kb)
                                 in if n = [] then localAddr r else n)"
    and "distinct (map fst groups)"
  shows "distinct (map fst (groupKeys env r ks groups)) \<and>
         map_of (groupKeys env r ks groups) =
           (\<lambda>node. let old = (case map_of groups node of None \<Rightarrow> [] | Some l \<Rightarrow> l);
                        new = filter (\<lambda>kb. owner kb = node) ks
                    in if old @ new = [] \<and> map_of groups node = None then None else Some (old @ new))"
  using assms(2)
proof (induction ks arbitrary: groups)
  case Nil
  then show ?case by (auto simp: fun_eq_iff Let_def split: option.splits)
next
  case (Cons kb ks)
  let ?g = "AList.update (owner kb)
              ((case map_of groups (owner kb) of None \<Rightarrow> [] | Some l \<Rightarrow> l) @ [kb]) groups"
  have st: "groupKeys env r (kb # ks) groups = groupKeys env r ks ?g"
    by (simp add: ow Let_def)
  have d: "distinct (map fst ?g)" using Cons.prems by (simp add: distinct_update)
  show ?case
    unfolding st using Cons.IH [OF d]
    by (auto simp: fun_eq_iff Let_def update_conv' split: option.splits)
qed

lemma sint_sum_list:
  "sint (sum_list (ws :: 64 word list)) = signed_take_bit 63 (sum_list (map sint ws))"
proof (induction ws)
  case Nil
  then show ?case by simp
next
  case (Cons w ws)
  have "sint (w + sum_list ws) = signed_take_bit 63 (sint w + sint (sum_list ws))"
    by (simp add: sint_word_ariths)
  also have "\<dots> = signed_take_bit 63 (sint w + signed_take_bit 63 (sum_list (map sint ws)))"
    unfolding Cons.IH ..
  also have "\<dots> = signed_take_bit (63 :: nat) (signed_take_bit 63 (sint w) +
                 signed_take_bit 63 (signed_take_bit 63 (sum_list (map sint ws))))"
    by (rule signed_take_bit_add [symmetric])
  also have "\<dots> = signed_take_bit (63 :: nat) (signed_take_bit 63 (sint w) +
                 signed_take_bit 63 (sum_list (map sint ws)))"
    by simp
  also have "\<dots> = signed_take_bit 63 (sint w + sum_list (map sint ws))"
    by (rule signed_take_bit_add)
  finally show ?case by simp
qed

lemma sint_sum_list_exact:
  assumes "\<forall>w \<in> set (ws :: 64 word list). 0 \<le> sint w" "sum_list (map sint ws) < 2 ^ 63"
  shows "sint (sum_list ws) = sum_list (map sint ws)"
proof -
  have "0 \<le> sum_list (map sint ws)" using assms(1) by (induction ws) auto
  then show ?thesis
    using assms(2) by (simp add: sint_sum_list signed_take_bit_int_eq_self)
qed

lemma mset_map_nth_perm:
  assumes "mset order = mset [0..<length xs]"
  shows "mset (map (\<lambda>i. xs ! i) order) = mset xs"
proof -
  have "mset (map (\<lambda>i. xs ! i) order) = image_mset (\<lambda>i. xs ! i) (mset order)" by simp
  also have "\<dots> = mset (map (\<lambda>i. xs ! i) [0..<length xs])" unfolding assms by simp
  also have "\<dots> = mset xs" by (simp add: map_nth)
  finally show ?thesis .
qed

lemma collectResults_sum:
  "\<forall>res \<in> set rs. del_err res = None \<Longrightarrow>
   collectResults rs tot = IntReply (tot + sum_list (map del_count rs))"
  by (induction rs arbitrary: tot) (simp_all add: MakeIntReply_def add.assoc)

lemma collectResults_err:
  "\<exists>res \<in> set rs. del_err res \<noteq> None \<Longrightarrow>
   \<exists>res \<in> set rs. del_err res = Some (collectResults rs tot)"
proof (induction rs arbitrary: tot)
  case Nil
  then show ?case by simp
next
  case (Cons a rs)
  show ?case
  proof (cases "del_err a")
    case None
    then have "\<exists>res \<in> set rs. del_err res \<noteq> None" using Cons.prems by auto
    from Cons.IH [OF this, of "tot + del_count a"] show ?thesis using None by auto
  next
    case (Some e)
    then show ?thesis by simp
  qed
qed

lemma groupKeys_start:
  assumes "\<And>kb. owner kb = (let n = NodeForKey env (ring r) (str kb)
                             in if n = [] then localAddr r else n)"
  shows "distinct (map fst (groupKeys env r ks [])) \<and>
         map_of (groupKeys env r ks []) =
           (\<lambda>node. if filter (\<lambda>kb. owner kb = node) ks = [] then None
                    else Some (filter (\<lambda>kb. owner kb = node) ks))"
  using groupKeys_facts [of owner env r "[]" ks, OF assms] by (simp add: Let_def cong: if_cong)

lemma delGroup_answer:
  "delGroup env r (node, keys) =
     (case (if node = localAddr r then Inr (localDB_Exec env (Some ''DEL'' # keys))
            else peer_Do env node (Some ''DEL'' # keys)) of
        Inl e \<Rightarrow> \<lparr>del_count = 0, del_err = Some (ErrorReply (''ERR cluster forward failed: '' @ e))\<rparr>
      | Inr (ErrorReply s) \<Rightarrow> \<lparr>del_count = 0, del_err = Some (ErrorReply s)\<rparr>
      | Inr (IntReply n) \<Rightarrow> \<lparr>del_count = n, del_err = None\<rparr>
      | Inr _ \<Rightarrow> \<lparr>del_count = 0, del_err = Some (ErrorReply ''ERR cluster: DEL unexpected reply'')\<rparr>)"
  by (simp add: delGroup_def peerDo_def MakeErrReply_def Let_def split: sum.splits reply.splits)

text \<open>
  Claim C4. For \<open>DEL\<close> with at least one key, whatever the order in which the results
  of the groups are received: the groups are one per owner of a key (the node of the
  ring, or the local node when the ring gives none), each with the keys of that owner in
  the order of the command; each group is answered by its node for the command \<open>DEL\<close>
  with the keys of the group. When every answer is an integer reply, the reply is the
  integer reply of their sum in 64 bits, which is their sum as numbers when the counts
  are not negative and the sum is below \<open>2^63\<close>. When some answer is not an integer reply
  (an error reply, a failed transport, another kind of reply), the reply is the error
  of one such group: its error reply, the error of the failed forward, or the error of
  the unexpected reply.
\<close>

theorem C4_del_fanout:
  assumes len: "2 \<le> length cmd"
    and groups: "groups = groupKeys env r (tl cmd) []"
    and owner: "owner = (\<lambda>kb. let n = NodeForKey env (ring r) (str kb)
                               in if n = [] then localAddr r else n)"
    and answer: "answer = (\<lambda>(node, keys).
                   if node = localAddr r then Inr (localDB_Exec env (Some ''DEL'' # keys))
                   else peer_Do env node (Some ''DEL'' # keys))"
    and perm: "mset order = mset [0..<length groups]"
  shows "distinct (map fst groups) \<and> fst ` set groups = owner ` set (tl cmd) \<and>
         (\<forall>(node, keys) \<in> set groups. keys = filter (\<lambda>kb. owner kb = node) (tl cmd)) \<and>
         ((\<forall>g \<in> set groups. \<exists>n. answer g = Inr (IntReply n)) \<longrightarrow>
            execDel env r order cmd =
              IntReply (\<Sum>g\<leftarrow>groups. case answer g of Inr (IntReply n) \<Rightarrow> n | _ \<Rightarrow> 0)) \<and>
         ((\<forall>g \<in> set groups. \<exists>n. answer g = Inr (IntReply n) \<and> 0 \<le> sint n) \<and>
          (\<Sum>g\<leftarrow>groups. case answer g of Inr (IntReply n) \<Rightarrow> sint n | _ \<Rightarrow> 0) < 2 ^ 63 \<longrightarrow>
            (\<exists>tot. execDel env r order cmd = IntReply tot \<and>
                   sint tot = (\<Sum>g\<leftarrow>groups. case answer g of Inr (IntReply n) \<Rightarrow> sint n | _ \<Rightarrow> 0))) \<and>
         ((\<exists>g \<in> set groups. \<forall>n. answer g \<noteq> Inr (IntReply n)) \<longrightarrow>
            (\<exists>g \<in> set groups.
               (case answer g of
                  Inl e \<Rightarrow> execDel env r order cmd = ErrorReply (''ERR cluster forward failed: '' @ e)
                | Inr (ErrorReply s) \<Rightarrow> execDel env r order cmd = ErrorReply s
                | Inr (IntReply n) \<Rightarrow> False
                | Inr _ \<Rightarrow> execDel env r order cmd = ErrorReply ''ERR cluster: DEL unexpected reply'')))"
proof -
  let ?ks = "tl cmd"
  have ow: "owner kb = (let n = NodeForKey env (ring r) (str kb)
                         in if n = [] then localAddr r else n)" for kb
    by (simp add: owner)
  note gs = groupKeys_start [of owner env r ?ks, OF ow, folded groups]
  have d: "distinct (map fst groups)" using gs by simp
  have mo: "map_of groups node =
      (if filter (\<lambda>kb. owner kb = node) ?ks = [] then None
       else Some (filter (\<lambda>kb. owner kb = node) ?ks))" for node
    using gs by simp
  have mem: "(node, keys) \<in> set groups \<longleftrightarrow>
      keys = filter (\<lambda>kb. owner kb = node) ?ks \<and> keys \<noteq> []" for node keys
  proof -
    have "(node, keys) \<in> set groups \<longleftrightarrow> map_of groups node = Some keys"
      by (simp add: map_of_eq_Some_iff [OF d])
    then show ?thesis unfolding mo by auto
  qed
  have nodes: "fst ` set groups = owner ` set ?ks"
  proof (rule set_eqI)
    fix node
    have "node \<in> fst ` set groups \<longleftrightarrow> map_of groups node \<noteq> None"
      by (simp add: map_of_eq_None_iff)
    also have "\<dots> \<longleftrightarrow> filter (\<lambda>kb. owner kb = node) ?ks \<noteq> []" by (simp add: mo)
    also have "\<dots> \<longleftrightarrow> node \<in> owner ` set ?ks" by (auto simp: filter_empty_conv)
    finally show "node \<in> fst ` set groups \<longleftrightarrow> node \<in> owner ` set ?ks" .
  qed
  have keys: "\<forall>(node, keys) \<in> set groups. keys = filter (\<lambda>kb. owner kb = node) ?ks"
    using mem by auto
  let ?results = "map (delGroup env r) groups"
  let ?arrival = "map (\<lambda>i. ?results ! i) order"
  have ex: "execDel env r order cmd = collectResults ?arrival 0"
    using len by (simp add: execDel_def groups Let_def)
  have ms: "mset ?arrival = mset ?results"
    by (rule mset_map_nth_perm) (simp add: perm)
  then have st: "set ?arrival = set ?results" by (rule mset_eq_setD)
  have dg: "delGroup env r g =
     (case answer g of
        Inl e \<Rightarrow> \<lparr>del_count = 0, del_err = Some (ErrorReply (''ERR cluster forward failed: '' @ e))\<rparr>
      | Inr (ErrorReply s) \<Rightarrow> \<lparr>del_count = 0, del_err = Some (ErrorReply s)\<rparr>
      | Inr (IntReply n) \<Rightarrow> \<lparr>del_count = n, del_err = None\<rparr>
      | Inr _ \<Rightarrow> \<lparr>del_count = 0, del_err = Some (ErrorReply ''ERR cluster: DEL unexpected reply'')\<rparr>)" for g
    by (cases g) (simp add: delGroup_answer answer)
  have sum: "execDel env r order cmd =
        IntReply (\<Sum>g\<leftarrow>groups. case answer g of Inr (IntReply n) \<Rightarrow> n | _ \<Rightarrow> 0)"
    if a: "\<forall>g \<in> set groups. \<exists>n. answer g = Inr (IntReply n)"
  proof -
    have ne: "\<forall>res \<in> set ?arrival. del_err res = None"
      unfolding st using a by (auto simp: dg)
    have "sum_list (map del_count ?arrival) = sum_mset (image_mset del_count (mset ?arrival))"
      by (metis mset_map sum_mset_sum_list)
    also have "\<dots> = sum_list (map del_count ?results)"
      unfolding ms by (metis mset_map sum_mset_sum_list)
    also have "\<dots> = (\<Sum>g\<leftarrow>groups. case answer g of Inr (IntReply n) \<Rightarrow> n | _ \<Rightarrow> 0)"
      unfolding map_map by (rule arg_cong [where f = sum_list], rule map_cong) (use a in \<open>auto simp: dg\<close>)
    finally show ?thesis
      using collectResults_sum [OF ne, of 0] ex by simp
  qed
  have exact: "\<exists>tot. execDel env r order cmd = IntReply tot \<and>
        sint tot = (\<Sum>g\<leftarrow>groups. case answer g of Inr (IntReply n) \<Rightarrow> sint n | _ \<Rightarrow> 0)"
    if a: "(\<forall>g \<in> set groups. \<exists>n. answer g = Inr (IntReply n) \<and> 0 \<le> sint n) \<and>
          (\<Sum>g\<leftarrow>groups. case answer g of Inr (IntReply n) \<Rightarrow> sint n | _ \<Rightarrow> 0) < 2 ^ 63"
  proof -
    let ?ws = "map (\<lambda>g. case answer g of Inr (IntReply n) \<Rightarrow> n | _ \<Rightarrow> 0) groups"
    have e: "map sint ?ws = map (\<lambda>g. case answer g of Inr (IntReply n) \<Rightarrow> sint n | _ \<Rightarrow> 0) groups"
      unfolding map_map by (rule map_cong) (use a in \<open>auto\<close>)
    have nn: "\<forall>w \<in> set ?ws. 0 \<le> sint w" using a by auto
    have lt: "sum_list (map sint ?ws) < 2 ^ 63"
      unfolding e using a by (rule conjunct2)
    have "sint (sum_list ?ws) = sum_list (map sint ?ws)"
      by (rule sint_sum_list_exact [OF nn lt])
    then have s1: "sint (sum_list ?ws) =
        (\<Sum>g\<leftarrow>groups. case answer g of Inr (IntReply n) \<Rightarrow> sint n | _ \<Rightarrow> 0)"
      unfolding e .
    have s2: "execDel env r order cmd = IntReply (sum_list ?ws)"
      by (rule sum) (use a in blast)
    show ?thesis
      by (rule exI [of _ "sum_list ?ws"]) (rule conjI [OF s2 s1])
  qed
  have err: "\<exists>g \<in> set groups.
               (case answer g of
                  Inl e \<Rightarrow> execDel env r order cmd = ErrorReply (''ERR cluster forward failed: '' @ e)
                | Inr (ErrorReply s) \<Rightarrow> execDel env r order cmd = ErrorReply s
                | Inr (IntReply n) \<Rightarrow> False
                | Inr _ \<Rightarrow> execDel env r order cmd = ErrorReply ''ERR cluster: DEL unexpected reply'')"
    if a: "\<exists>g \<in> set groups. \<forall>n. answer g \<noteq> Inr (IntReply n)"
  proof -
    from a obtain g0 where g0: "g0 \<in> set groups" "\<forall>n. answer g0 \<noteq> Inr (IntReply n)" by blast
    have "del_err (delGroup env r g0) \<noteq> None"
      using g0(2) by (simp add: dg split: sum.splits reply.splits)
    then have "\<exists>res \<in> set ?arrival. del_err res \<noteq> None"
      unfolding st using g0(1) by auto
    from collectResults_err [OF this, of 0]
    obtain g where g: "g \<in> set groups" "del_err (delGroup env r g) = Some (execDel env r order cmd)"
      unfolding st ex by auto
    show ?thesis
      by (rule bexI [OF _ g(1)]) (use g(2) in \<open>auto simp: dg split: sum.splits reply.splits\<close>)
  qed
  show ?thesis using d nodes keys sum exact err by blast
qed

lemma ex_groups:
  "groupKeys ex_env ex_router (tl ex_del) [] =
     [(''n1'', [Some ''a'', Some ''c'']), (''n2'', [Some ''bb''])]"
  "groupKeys ex_env_down ex_router (tl ex_del) [] =
     [(''n1'', [Some ''a'', Some ''c'']), (''n2'', [Some ''bb''])]"
  by code_simp+

theorem C4_del_fanout_witness:
  "groupKeys ex_env ex_router (tl ex_del) [] =
     [(''n1'', [Some ''a'', Some ''c'']), (''n2'', [Some ''bb''])] \<and>
   execDel ex_env ex_router [1, 0] ex_del = IntReply 3 \<and>
   execDel ex_env_down ex_router [0, 1] ex_del = ErrorReply ''ERR cluster forward failed: timeout''"
proof -
  have a: "execDel ex_env ex_router [1, 0] ex_del = IntReply 3"
    using C4_del_fanout [where env = ex_env and r = ex_router and cmd = ex_del
        and order = "[1, 0]", OF _ refl refl refl]
    by (simp add: ex_groups) (simp add: ex_del_def ex_env_def ex_router_def)
  have b: "execDel ex_env_down ex_router [0, 1] ex_del =
             ErrorReply ''ERR cluster forward failed: timeout''"
    using C4_del_fanout [where env = ex_env_down and r = ex_router and cmd = ex_del
        and order = "[0, 1]", OF _ refl refl refl]
    by (simp add: ex_groups) (simp add: ex_del_def ex_env_down_def ex_env_def ex_router_def)
  show ?thesis using a b ex_groups(1) by (intro conjI)
qed

end
